theory Spec2Isabelle
  imports Complex_Main "HOL-Library.AList"
begin

section \<open>The dependency graph (networkx DiGraph as the solver uses it)\<close>

text \<open>
  \<^verbatim>\<open>DAGSolver._build_graph\<close> creates a \<^verbatim>\<open>nx.DiGraph\<close>, adds the keys of the node
  dictionary and then the edges. A DiGraph keeps its nodes in insertion order and, for
  every node, its successors and predecessors in the order in which the edges were first
  added; adding a node or an edge a second time changes nothing, and adding an edge adds
  its endpoints when they are not yet nodes. The record below keeps the node list and the
  list of distinct edges in insertion order, from which both adjacency orders are read.
\<close>

record 'a graph =
  g_nodes :: "'a list"
  g_edges :: "('a \<times> 'a) list"

definition empty_graph :: "'a graph" where
  "empty_graph = \<lparr>g_nodes = [], g_edges = []\<rparr>"

definition add_node :: "'a \<Rightarrow> 'a graph \<Rightarrow> 'a graph" where
  "add_node n g = (if n \<in> set (g_nodes g) then g else g\<lparr>g_nodes := g_nodes g @ [n]\<rparr>)"

definition add_edge :: "'a \<times> 'a \<Rightarrow> 'a graph \<Rightarrow> 'a graph" where
  "add_edge e g =
     (let g' = add_node (snd e) (add_node (fst e) g)
      in if e \<in> set (g_edges g') then g' else g'\<lparr>g_edges := g_edges g' @ [e]\<rparr>)"

definition add_nodes_from :: "'a list \<Rightarrow> 'a graph \<Rightarrow> 'a graph" where
  "add_nodes_from ns g = fold add_node ns g"

definition add_edges_from :: "('a \<times> 'a) list \<Rightarrow> 'a graph \<Rightarrow> 'a graph" where
  "add_edges_from es g = fold add_edge es g"

text \<open>\<^verbatim>\<open>graph.successors(n)\<close>, \<^verbatim>\<open>graph.predecessors(n)\<close> and the iteration of
  \<^verbatim>\<open>graph.edges\<close> (for every node in node order, its out-edges in adjacency order).\<close>

definition successors :: "'a graph \<Rightarrow> 'a \<Rightarrow> 'a list" where
  "successors g n = map snd (filter (\<lambda>e. fst e = n) (g_edges g))"

definition predecessors :: "'a graph \<Rightarrow> 'a \<Rightarrow> 'a list" where
  "predecessors g n = map fst (filter (\<lambda>e. snd e = n) (g_edges g))"

definition edges_view :: "'a graph \<Rightarrow> ('a \<times> 'a) list" where
  "edges_view g = concat (map (\<lambda>u. map (Pair u) (successors g u)) (g_nodes g))"

text \<open>The graph of \<^verbatim>\<open>_build_graph(nodes, edges)\<close>; the first argument is
  \<^verbatim>\<open>nodes.keys()\<close>.\<close>

definition build_graph :: "'a list \<Rightarrow> ('a \<times> 'a) list \<Rightarrow> 'a graph" where
  "build_graph keys edges = add_edges_from edges (add_nodes_from keys empty_graph)"

text \<open>The invariant of every DiGraph: no node and no edge is stored twice, and both ends
  of every edge are nodes.\<close>

definition wf_graph :: "'a graph \<Rightarrow> bool" where
  "wf_graph g \<longleftrightarrow>
     distinct (g_nodes g) \<and> distinct (g_edges g) \<and>
     fst ` set (g_edges g) \<subseteq> set (g_nodes g) \<and> snd ` set (g_edges g) \<subseteq> set (g_nodes g)"

subsection \<open>Kahn's algorithm\<close>

text \<open>
  \<^verbatim>\<open>_kahns_sort\<close>: the in-degree table starts at 0 for every node and is incremented
  once per edge; the queue is seeded with the nodes of in-degree 0 in node order; the loop
  pops the head, appends it to the result and decrements every successor, enqueueing a
  successor whose in-degree has just become 0. In-degrees are Python integers, so a
  decrement below 0 is not truncated.
\<close>

definition in_degree_init :: "'a graph \<Rightarrow> 'a \<Rightarrow> int" where
  "in_degree_init g = fold (\<lambda>e d. d(snd e := d (snd e) + 1)) (edges_view g) (\<lambda>n. 0)"

definition relax_step :: "'a \<Rightarrow> ('a \<Rightarrow> int) \<times> 'a list \<Rightarrow> ('a \<Rightarrow> int) \<times> 'a list" where
  "relax_step s dq =
     (let d' = (fst dq)(s := fst dq s - 1)
      in (d', if d' s = 0 then snd dq @ [s] else snd dq))"

definition relax :: "'a list \<Rightarrow> ('a \<Rightarrow> int) \<times> 'a list \<Rightarrow> ('a \<Rightarrow> int) \<times> 'a list" where
  "relax ss dq = fold relax_step ss dq"

lemma relax_measure:
  assumes "finite V" "set ss \<subseteq> V"
  shows "length (snd (relax ss (d, q))) + card {v \<in> V. 0 < fst (relax ss (d, q)) v}
         \<le> length q + card {v \<in> V. 0 < d v}"
  using assms(2)
proof (induction ss arbitrary: d q)
  case Nil
  then show ?case by (simp add: relax_def)
next
  case (Cons s ss)
  let ?d = "d(s := d s - 1)"
  let ?q = "if ?d s = 0 then q @ [s] else q"
  have step: "relax (s # ss) (d, q) = relax ss (?d, ?q)"
    by (simp add: relax_def relax_step_def Let_def)
  have sV: "s \<in> V" using Cons.prems by simp
  have "length ?q + card {v \<in> V. 0 < ?d v} \<le> length q + card {v \<in> V. 0 < d v}"
  proof (cases "d s = 1")
    case True
    have eq: "{v \<in> V. 0 < ?d v} = {v \<in> V. 0 < d v} - {s}"
      using True by auto
    have "s \<in> {v \<in> V. 0 < d v}" using True sV by simp
    moreover have "finite {v \<in> V. 0 < d v}" using assms(1) by simp
    ultimately have "card ({v \<in> V. 0 < d v} - {s}) + 1 = card {v \<in> V. 0 < d v}"
      by (metis One_nat_def Suc_eq_plus1 card_Suc_Diff1)
    then show ?thesis using True eq by simp
  next
    case False
    have "{v \<in> V. 0 < ?d v} \<subseteq> {v \<in> V. 0 < d v}" by auto
    then have "card {v \<in> V. 0 < ?d v} \<le> card {v \<in> V. 0 < d v}"
      using assms(1) by (intro card_mono) auto
    then show ?thesis using False by simp
  qed
  moreover have "length (snd (relax ss (?d, ?q))) + card {v \<in> V. 0 < fst (relax ss (?d, ?q)) v}
         \<le> length ?q + card {v \<in> V. 0 < ?d v}"
    by (rule Cons.IH) (use Cons.prems in simp)
  ultimately show ?case unfolding step by linarith
qed

function kahn_loop :: "'a graph \<Rightarrow> ('a \<Rightarrow> int) \<Rightarrow> 'a list \<Rightarrow> 'a list \<Rightarrow> 'a list" where
  "kahn_loop g d [] result = result"
| "kahn_loop g d (node # queue) result =
     kahn_loop g (fst (relax (successors g node) (d, queue)))
                 (snd (relax (successors g node) (d, queue))) (result @ [node])"
  by pat_completeness auto
termination
proof (relation "measure (\<lambda>(g, d, q, r). length q + card {v \<in> snd ` set (g_edges g). 0 < d v})")
  show "wf (measure (\<lambda>(g, d, q, r). length q + card {v \<in> snd ` set (g_edges g). 0 < d v}))"
    by simp
next
  fix g :: "'a graph" and d :: "'a \<Rightarrow> int" and node queue result
  have "set (successors g node) \<subseteq> snd ` set (g_edges g)"
    by (auto simp: successors_def)
  from relax_measure[OF _ this, of d queue]
  show "((g, fst (relax (successors g node) (d, queue)),
          snd (relax (successors g node) (d, queue)), result @ [node]),
         (g, d, node # queue, result))
        \<in> measure (\<lambda>(g, d, q, r). length q + card {v \<in> snd ` set (g_edges g). 0 < d v})"
    by simp
qed

definition kahns_sort :: "'a graph \<Rightarrow> 'a list" where
  "kahns_sort g =
     (let in_degree = in_degree_init g
      in kahn_loop g in_degree (filter (\<lambda>n. in_degree n = 0) (g_nodes g)) [])"

text \<open>\<^verbatim>\<open>order.index(x)\<close> for an element of the list, and "u comes before v".\<close>

definition index_of :: "'a list \<Rightarrow> 'a \<Rightarrow> nat" where
  "index_of xs x = length (takeWhile (\<lambda>y. y \<noteq> x) xs)"

definition precedes :: "'a \<Rightarrow> 'a \<Rightarrow> 'a list \<Rightarrow> bool" where
  "precedes u v xs \<longleftrightarrow> u \<in> set xs \<and> v \<in> set xs \<and> index_of xs u < index_of xs v"

subsection \<open>Cycles and sub-graphs\<close>

text \<open>
  \<^verbatim>\<open>solve\<close> collects the nodes of all cycles that \<^verbatim>\<open>nx.simple_cycles\<close> lists.
  networkx is a library, not part of the repository; a node lies on a simple cycle
  (a self-loop counts) exactly when it reaches itself along at least one edge, which is
  how the set is defined here, in node order.
\<close>

definition simple_cycle_nodes :: "'a graph \<Rightarrow> 'a list" where
  "simple_cycle_nodes g = filter (\<lambda>v. (v, v) \<in> (set (g_edges g))\<^sup>+) (g_nodes g)"

text \<open>
  \<^verbatim>\<open>graph.subgraph(ids).copy()\<close>: the induced sub-graph, rebuilt node by node and
  edge by edge. The order in which a sub-graph view lists its nodes and neighbours is
  not fixed by the program: networkx may follow the graph or the Python set \<^verbatim>\<open>ids\<close>,
  whose iteration order depends on string hashing. That order is the parameter
  \<open>set_order\<close> of the model: it maps the elements of a set, listed in graph order, to
  the order in which Python iterates over them.
\<close>

definition subgraph_copy :: "('a list \<Rightarrow> 'a list) \<Rightarrow> 'a graph \<Rightarrow> 'a list \<Rightarrow> 'a graph" where
  "subgraph_copy set_order g ids =
     (let ns = set_order (filter (\<lambda>n. n \<in> set ids) (g_nodes g));
          es = concat (map (\<lambda>u. map (Pair u)
                 (set_order (filter (\<lambda>v. v \<in> set ids) (successors g u)))) ns)
      in add_edges_from es (add_nodes_from ns empty_graph))"

definition is_set_order :: "('a list \<Rightarrow> 'a list) \<Rightarrow> bool" where
  "is_set_order set_order \<longleftrightarrow> (\<forall>xs. distinct (set_order xs) \<and> set (set_order xs) = set xs)"

text \<open>\<^verbatim>\<open>_resolve_cycle_order\<close>: \<^verbatim>\<open>sorted\<close> is stable, as \<^const>\<open>sort_key\<close> is; the key is
  the in-degree inside the sub-graph induced by the cycle nodes.\<close>

definition sub_in_degree :: "'a graph \<Rightarrow> 'a list \<Rightarrow> 'a \<Rightarrow> nat" where
  "sub_in_degree g ids n = length (filter (\<lambda>p. p \<in> set ids) (predecessors g n))"

definition resolve_cycle_order :: "'a graph \<Rightarrow> 'a list \<Rightarrow> 'a list" where
  "resolve_cycle_order g cycle_nodes = sort_key (\<lambda>n. sub_in_degree g cycle_nodes n) cycle_nodes"

section \<open>The variable store (SystemState)\<close>

text \<open>
  The store is a Python dictionary from names to floats: an association list with
  distinct keys in insertion order. Floats are modelled as real numbers: rounding,
  overflow and NaN are outside the model; the one infinite value the program produces
  itself, the sentinel of \<^verbatim>\<open>delta\<close>, is a constructor of its own.
\<close>

type_synonym store = "(string \<times> real) list"

definition SystemState :: "store option \<Rightarrow> store" where
  "SystemState initial = (case initial of None \<Rightarrow> [] | Some d \<Rightarrow> if d = [] then [] else d)"

definition state_get :: "store \<Rightarrow> string \<Rightarrow> real \<Rightarrow> real" where
  "state_get st name dflt = (case map_of st name of None \<Rightarrow> dflt | Some v \<Rightarrow> v)"

definition state_set :: "store \<Rightarrow> string \<Rightarrow> real \<Rightarrow> store" where
  "state_set st name v = AList.update name v st"

definition snapshot :: "store \<Rightarrow> store" where
  "snapshot st = st"

definition to_dict :: "store \<Rightarrow> store" where
  "to_dict st = st"

datatype pyfloat = Fin real | PosInf

fun float_less :: "pyfloat \<Rightarrow> real \<Rightarrow> bool" where
  "float_less (Fin x) t \<longleftrightarrow> x < t"
| "float_less PosInf t \<longleftrightarrow> False"

definition delta_step :: "store \<Rightarrow> string \<times> real \<Rightarrow> real \<Rightarrow> real" where
  "delta_step previous_snapshot kv max_delta =
     (case map_of previous_snapshot (fst kv) of
        None \<Rightarrow> max_delta
      | Some p \<Rightarrow> (let diff = \<bar>snd kv - p\<bar> in if diff > max_delta then diff else max_delta))"

definition delta :: "store \<Rightarrow> store \<Rightarrow> pyfloat" where
  "delta variables previous_snapshot =
     (if previous_snapshot = [] then PosInf
      else Fin (fold (delta_step previous_snapshot) variables 0))"

text \<open>The absolute differences over the keys that the store and the snapshot share.\<close>

definition common_diffs :: "store \<Rightarrow> store \<Rightarrow> real set" where
  "common_diffs variables previous =
     {\<bar>v - p\<bar> | k v p. (k, v) \<in> set variables \<and> map_of previous k = Some p}"

section \<open>Nodes\<close>

subsection \<open>Expressions of a FormulaNode\<close>

text \<open>
  \<^verbatim>\<open>FormulaNode.compute\<close> hands the expression string to Python's \<^verbatim>\<open>eval\<close>, with
  empty \<^verbatim>\<open>__builtins__\<close> and the store merged with \<^verbatim>\<open>_SAFE_BUILTINS\<close> as local
  names. Python's parser and evaluator are not part of the repository. The model
  represents an expression by its syntax tree and covers the arithmetic fragment:
  numeric literals (read as floats), names, unary minus, the four arithmetic operators
  and calls \<open>f(e\<^sub>1, \<dots>, e\<^sub>n)\<close> of a name. Everything else Python accepts in an
  expression (attribute access, subscripts, comprehensions, lambdas, strings, \<dots>) has
  no counterpart in the tree, so nothing proved here speaks about it.
  Evaluation order and the exceptions follow Python: a name is looked up when it is
  reached, the callee before the arguments, the arguments from left to right, and the
  call itself last. Where Python's \<^verbatim>\<open>pow\<close> leaves the reals (negative base, fractional
  exponent) its result is a complex number, which is not represented: the model reports
  the TypeError that \<^verbatim>\<open>float()\<close> raises on it.
\<close>

datatype binop = Add | Sub | Mult | Div

datatype pyexpr =
    Const real
  | Name string
  | Neg pyexpr
  | BinOp pyexpr binop pyexpr
  | Call string "pyexpr list"

datatype builtin =
  B_abs | B_min | B_max | B_pow | B_round | B_sqrt | B_sin | B_cos | B_tan | B_log | B_exp

datatype pyval = VNum real | VFun builtin

text \<open>The exceptions of the program. \<open>FormulaValueError\<close> is the \<^verbatim>\<open>ValueError\<close> of
  \<^verbatim>\<open>FormulaNode.compute\<close>: its message holds the node id and the expression, and
  \<^verbatim>\<open>raise ... from exc\<close> attaches the cause.\<close>

datatype error =
    NameError string
  | TypeError
  | ZeroDivisionError
  | MathDomainError
  | FormulaValueError string pyexpr error
  | UnknownNodeType string "string list"
  | SweepNodeNotFound string
  | NotASweepNode string string
  | NegativeSamples int
  | UnboundLocalError string

datatype pyclass = C_NameError | C_TypeError | C_ZeroDivisionError | C_ValueError | C_KeyError
  | C_UnboundLocalError

fun exception_class :: "error \<Rightarrow> pyclass" where
  "exception_class (NameError x) = C_NameError"
| "exception_class TypeError = C_TypeError"
| "exception_class ZeroDivisionError = C_ZeroDivisionError"
| "exception_class MathDomainError = C_ValueError"
| "exception_class (FormulaValueError nid e c) = C_ValueError"
| "exception_class (UnknownNodeType t ts) = C_KeyError"
| "exception_class (SweepNodeNotFound nid) = C_KeyError"
| "exception_class (NotASweepNode nid cls) = C_TypeError"
| "exception_class (NegativeSamples n) = C_ValueError"
| "exception_class (UnboundLocalError x) = C_UnboundLocalError"

definition SAFE_BUILTINS :: "(string \<times> pyval) list" where
  "SAFE_BUILTINS =
     [(''abs'', VFun B_abs), (''min'', VFun B_min), (''max'', VFun B_max),
      (''pow'', VFun B_pow), (''round'', VFun B_round), (''sqrt'', VFun B_sqrt),
      (''sin'', VFun B_sin), (''cos'', VFun B_cos), (''tan'', VFun B_tan),
      (''log'', VFun B_log), (''exp'', VFun B_exp), (''pi'', VNum pi)]"

text \<open>\<^verbatim>\<open>{**state.to_dict(), **self._SAFE_BUILTINS}\<close>: the later entries win.\<close>

definition build_namespace :: "store \<Rightarrow> (string \<times> pyval) list" where
  "build_namespace st =
     fold (\<lambda>kv ns. AList.update (fst kv) (snd kv) ns) SAFE_BUILTINS
          (map (\<lambda>kv. (fst kv, VNum (snd kv))) (to_dict st))"

definition py_round :: "real \<Rightarrow> int" where
  "py_round x =
     (let f = \<lfloor>x\<rfloor>; r = x - of_int f
      in if r < 1 / 2 then f else if r > 1 / 2 then f + 1 else if even f then f else f + 1)"

definition py_pow :: "real \<Rightarrow> real \<Rightarrow> error + real" where
  "py_pow x y =
     (if x = 0 \<and> y < 0 then Inl ZeroDivisionError
      else if x < 0 \<and> y \<noteq> of_int \<lfloor>y\<rfloor> then Inl TypeError
      else if y = of_int \<lfloor>y\<rfloor> then Inr (x powi \<lfloor>y\<rfloor>)
      else Inr (x powr y))"

fun builtin_fun :: "builtin \<Rightarrow> real list \<Rightarrow> error + real" where
  "builtin_fun B_abs [x] = Inr \<bar>x\<bar>"
| "builtin_fun B_min (x # y # zs) = Inr (fold min (y # zs) x)"
| "builtin_fun B_max (x # y # zs) = Inr (fold max (y # zs) x)"
| "builtin_fun B_pow [x, y] = py_pow x y"
| "builtin_fun B_round [x] = Inr (of_int (py_round x))"
| "builtin_fun B_sqrt [x] = (if x < 0 then Inl MathDomainError else Inr (sqrt x))"
| "builtin_fun B_sin [x] = Inr (sin x)"
| "builtin_fun B_cos [x] = Inr (cos x)"
| "builtin_fun B_tan [x] = Inr (tan x)"
| "builtin_fun B_log [x] = (if x \<le> 0 then Inl MathDomainError else Inr (ln x))"
| "builtin_fun B_log [x, b] =
     (if x \<le> 0 \<or> b \<le> 0 then Inl MathDomainError
      else if b = 1 then Inl ZeroDivisionError else Inr (ln x / ln b))"
| "builtin_fun B_exp [x] = Inr (exp x)"
| "builtin_fun b xs = Inl TypeError"

fun numbers :: "pyval list \<Rightarrow> real list option" where
  "numbers [] = Some []"
| "numbers (VNum x # vs) = (case numbers vs of None \<Rightarrow> None | Some xs \<Rightarrow> Some (x # xs))"
| "numbers (VFun f # vs) = None"

definition call_builtin :: "builtin \<Rightarrow> pyval list \<Rightarrow> error + pyval" where
  "call_builtin b vs =
     (case numbers vs of
        None \<Rightarrow> Inl TypeError
      | Some xs \<Rightarrow> (case builtin_fun b xs of Inl e \<Rightarrow> Inl e | Inr r \<Rightarrow> Inr (VNum r)))"

fun apply_binop :: "binop \<Rightarrow> pyval \<Rightarrow> pyval \<Rightarrow> error + pyval" where
  "apply_binop Add (VNum a) (VNum b) = Inr (VNum (a + b))"
| "apply_binop Sub (VNum a) (VNum b) = Inr (VNum (a - b))"
| "apply_binop Mult (VNum a) (VNum b) = Inr (VNum (a * b))"
| "apply_binop Div (VNum a) (VNum b) = (if b = 0 then Inl ZeroDivisionError else Inr (VNum (a / b)))"
| "apply_binop op a b = Inl TypeError"

fun eval_expr :: "(string \<times> pyval) list \<Rightarrow> pyexpr \<Rightarrow> error + pyval"
  and eval_args :: "(string \<times> pyval) list \<Rightarrow> pyexpr list \<Rightarrow> error + pyval list" where
  "eval_expr ns (Const x) = Inr (VNum x)"
| "eval_expr ns (Name x) = (case map_of ns x of None \<Rightarrow> Inl (NameError x) | Some v \<Rightarrow> Inr v)"
| "eval_expr ns (Neg e) =
     (case eval_expr ns e of
        Inl err \<Rightarrow> Inl err
      | Inr (VNum x) \<Rightarrow> Inr (VNum (- x))
      | Inr (VFun f) \<Rightarrow> Inl TypeError)"
| "eval_expr ns (BinOp a op b) =
     (case eval_expr ns a of
        Inl err \<Rightarrow> Inl err
      | Inr va \<Rightarrow> (case eval_expr ns b of Inl err \<Rightarrow> Inl err | Inr vb \<Rightarrow> apply_binop op va vb))"
| "eval_expr ns (Call f args) =
     (case map_of ns f of
        None \<Rightarrow> Inl (NameError f)
      | Some fv \<Rightarrow>
          (case eval_args ns args of
             Inl err \<Rightarrow> Inl err
           | Inr vs \<Rightarrow> (case fv of VNum x \<Rightarrow> Inl TypeError | VFun b \<Rightarrow> call_builtin b vs)))"
| "eval_args ns [] = Inr []"
| "eval_args ns (e # es) =
     (case eval_expr ns e of
        Inl err \<Rightarrow> Inl err
      | Inr v \<Rightarrow> (case eval_args ns es of Inl err \<Rightarrow> Inl err | Inr vs \<Rightarrow> Inr (v # vs)))"

text \<open>\<^verbatim>\<open>float(eval(expression, {"__builtins__": {}}, namespace))\<close>.\<close>

definition eval_float :: "(string \<times> pyval) list \<Rightarrow> pyexpr \<Rightarrow> error + real" where
  "eval_float ns e =
     (case eval_expr ns e of
        Inl err \<Rightarrow> Inl err
      | Inr (VNum x) \<Rightarrow> Inr x
      | Inr (VFun f) \<Rightarrow> Inl TypeError)"

subsection \<open>Node classes\<close>

text \<open>
  A node has an id, a label, the parameter dictionary and the lists of its input and
  output variable names. The parameter dictionary is split by the type of the values the
  class documentation gives them: numbers (\<^verbatim>\<open>voltage\<close>, \<^verbatim>\<open>efficiency\<close>, \<^verbatim>\<open>r0\<close>,
  \<^verbatim>\<open>alpha\<close>, \<^verbatim>\<open>t0\<close>, \<^verbatim>\<open>min_val\<close>, \<^verbatim>\<open>max_val\<close>, \<^verbatim>\<open>steps\<close>), variable names
  (\<^verbatim>\<open>sweep_var\<close>, \<^verbatim>\<open>output_var\<close>) and the \<^verbatim>\<open>expression\<close>. A missing key takes the
  default of \<^verbatim>\<open>params.get\<close>.
\<close>

datatype node_class = MotorNode | HeaterNode | HydraulicNode | FormulaNode | SweepNode

record node =
  node_class :: node_class
  node_id :: string
  label :: string
  params_num :: "(string \<times> real) list"
  params_str :: "(string \<times> string) list"
  params_expr :: "pyexpr option"
  inputs :: "string list"
  outputs :: "string list"

fun class_name :: "node_class \<Rightarrow> string" where
  "class_name MotorNode = ''MotorNode''"
| "class_name HeaterNode = ''HeaterNode''"
| "class_name HydraulicNode = ''HydraulicNode''"
| "class_name FormulaNode = ''FormulaNode''"
| "class_name SweepNode = ''SweepNode''"

definition param :: "node \<Rightarrow> string \<Rightarrow> real \<Rightarrow> real" where
  "param n k dflt = (case map_of (params_num n) k of None \<Rightarrow> dflt | Some v \<Rightarrow> v)"

definition param_str :: "node \<Rightarrow> string \<Rightarrow> string \<Rightarrow> string" where
  "param_str n k dflt = (case map_of (params_str n) k of None \<Rightarrow> dflt | Some v \<Rightarrow> v)"

text \<open>\<^verbatim>\<open>self.inputs[i] if len(self.inputs) > i else name\<close>, and the same for outputs.\<close>

definition input_name :: "node \<Rightarrow> nat \<Rightarrow> string \<Rightarrow> string" where
  "input_name n i dflt = (if length (inputs n) > i then inputs n ! i else dflt)"

definition output_name :: "node \<Rightarrow> nat \<Rightarrow> string \<Rightarrow> string" where
  "output_name n i dflt = (if length (outputs n) > i then outputs n ! i else dflt)"

definition motor_compute :: "node \<Rightarrow> store \<Rightarrow> store" where
  "motor_compute n st =
     (let torque = state_get st (input_name n 0 ''torque'') 0;
          speed = state_get st (input_name n 1 ''speed'') 0;
          voltage = param n ''voltage'' 230;
          efficiency = param n ''efficiency'' 0.85;
          omega = speed * 2 * pi / 60;
          power = torque * omega;
          current = (if efficiency * voltage \<noteq> 0 then power / (efficiency * voltage) else 0)
      in state_set st (output_name n 0 ''motor_current'') current)"

definition heater_compute :: "node \<Rightarrow> store \<Rightarrow> store" where
  "heater_compute n st =
     (let temperature = state_get st (input_name n 0 ''temperature'') 0;
          r0 = param n ''r0'' 10;
          alpha = param n ''alpha'' 0.004;
          t0 = param n ''t0'' 25;
          voltage = param n ''voltage'' 230;
          resistance = r0 * (1 + alpha * (temperature - t0));
          current = (if resistance \<noteq> 0 then voltage / resistance else 0)
      in state_set (state_set st (output_name n 0 ''heater_resistance'') resistance)
                   (output_name n 1 ''heater_current'') current)"

definition hydraulic_compute :: "node \<Rightarrow> store \<Rightarrow> store" where
  "hydraulic_compute n st =
     (let pressure = state_get st (input_name n 0 ''pressure'') 0;
          flow_rate = state_get st (input_name n 1 ''flow_rate'') 0;
          voltage = param n ''voltage'' 400;
          efficiency = param n ''efficiency'' 0.80;
          power = pressure * flow_rate;
          current = (if efficiency * voltage \<noteq> 0 then power / (efficiency * voltage) else 0)
      in state_set st (output_name n 0 ''hydraulic_current'') current)"

text \<open>The expression of a FormulaNode; \<^verbatim>\<open>params.get("expression", "0")\<close>.\<close>

definition expression :: "node \<Rightarrow> pyexpr" where
  "expression n = (case params_expr n of None \<Rightarrow> Const 0 | Some e \<Rightarrow> e)"

text \<open>
  A call of \<^verbatim>\<open>compute\<close> mutates the store it is given and either returns or raises.
  The model returns the store as the call leaves it, with the exception if one was raised.
\<close>

definition formula_compute :: "node \<Rightarrow> store \<Rightarrow> store \<times> error option" where
  "formula_compute n st =
     (let namespace = build_namespace st
      in case eval_float namespace (expression n) of
           Inl exc \<Rightarrow> (st, Some (FormulaValueError (node_id n) (expression n) exc))
         | Inr result \<Rightarrow> (state_set st (output_name n 0 ''formula_result'') result, None))"

definition sweep_var :: "node \<Rightarrow> string" where
  "sweep_var n = param_str n ''sweep_var'' []"

definition output_var :: "node \<Rightarrow> string" where
  "output_var n = param_str n ''output_var'' []"

definition min_val :: "node \<Rightarrow> real" where
  "min_val n = param n ''min_val'' 0"

definition max_val :: "node \<Rightarrow> real" where
  "max_val n = param n ''max_val'' 100"

text \<open>\<^verbatim>\<open>int(x)\<close> truncates towards zero.\<close>

definition py_int :: "real \<Rightarrow> int" where
  "py_int x = (if 0 \<le> x then \<lfloor>x\<rfloor> else \<lceil>x\<rceil>)"

definition steps :: "node \<Rightarrow> int" where
  "steps n = py_int (param n ''steps'' 100)"

definition sweep_compute :: "node \<Rightarrow> store \<Rightarrow> store" where
  "sweep_compute n st =
     (let val = state_get st (output_var n) 0
      in state_set st (output_name n 0 ''sweep_result'') val)"

definition compute :: "node \<Rightarrow> store \<Rightarrow> store \<times> error option" where
  "compute n st =
     (case node_class n of
        MotorNode \<Rightarrow> (motor_compute n st, None)
      | HeaterNode \<Rightarrow> (heater_compute n st, None)
      | HydraulicNode \<Rightarrow> (hydraulic_compute n st, None)
      | FormulaNode \<Rightarrow> formula_compute n st
      | SweepNode \<Rightarrow> (sweep_compute n st, None))"

text \<open>\<^verbatim>\<open>np.linspace(start, stop, num)\<close> as numpy documents it (endpoint included): a
  negative \<^verbatim>\<open>num\<close> is a ValueError, one sample is \<^verbatim>\<open>start\<close>, and from two samples on
  the last one is set to \<^verbatim>\<open>stop\<close>.\<close>

definition linspace :: "real \<Rightarrow> real \<Rightarrow> int \<Rightarrow> error + real list" where
  "linspace start stop num =
     (if num < 0 then Inl (NegativeSamples num)
      else (let n = nat num;
                step = (stop - start) / real (n - 1);
                ys = map (\<lambda>i. start + real i * step) [0..<n]
            in Inr (if n > 1 then ys[n - 1 := stop] else ys)))"

definition get_sweep_range :: "node \<Rightarrow> error + real list" where
  "get_sweep_range n = linspace (min_val n) (max_val n) (steps n)"

section \<open>The solver (DAGSolver)\<close>

record solver =
  convergence_threshold :: real
  max_iterations :: int

definition DAGSolver :: solver where
  "DAGSolver = \<lparr>convergence_threshold = 0.001, max_iterations = 100\<rparr>"

text \<open>
  The node dictionary is an association list with distinct keys. A run carries the store
  and the execution log; when a node raises, the run stops with the store and the log as
  they are at that moment.

  \<^verbatim>\<open>for node_id in order: if node_id in nodes: nodes[node_id].compute(state);
  execution_order.append(node_id)\<close>
\<close>

type_synonym run = "(store \<times> string list) \<times> error option"

fun run_nodes :: "(string \<times> node) list \<Rightarrow> string list \<Rightarrow> store \<times> string list \<Rightarrow> run" where
  "run_nodes nodes [] sl = (sl, None)"
| "run_nodes nodes (nid # ids) sl =
     (case map_of nodes nid of
        None \<Rightarrow> run_nodes nodes ids sl
      | Some n \<Rightarrow>
          (case compute n (fst sl) of
             (st', Some e) \<Rightarrow> ((st', snd sl), Some e)
           | (st', None) \<Rightarrow> run_nodes nodes ids (st', snd sl @ [nid])))"

text \<open>
  \<^verbatim>\<open>_iterate_until_converged\<close>: the loop over \<^verbatim>\<open>range(1, max_iterations + 1)\<close> runs
  \<open>nat max_iterations\<close> times unless it breaks. The fifth argument is the local
  variable \<^verbatim>\<open>snapshot\<close>, unbound (\<open>None\<close>) until the first pass has assigned it; the
  \<^verbatim>\<open>else\<close> branch of the loop reads it to format the warning.
\<close>

fun iterate_loop ::
  "solver \<Rightarrow> (string \<times> node) list \<Rightarrow> string list \<Rightarrow> nat \<Rightarrow> store option \<Rightarrow> store \<times> string list \<Rightarrow> run" where
  "iterate_loop slv nodes cycle_order 0 snap sl =
     (case snap of
        None \<Rightarrow> (sl, Some (UnboundLocalError ''snapshot''))
      | Some s \<Rightarrow> (sl, None))"
| "iterate_loop slv nodes cycle_order (Suc k) snap sl =
     (let s = snapshot (fst sl)
      in case run_nodes nodes cycle_order sl of
           (sl', Some e) \<Rightarrow> (sl', Some e)
         | (sl', None) \<Rightarrow>
             if float_less (delta (fst sl') s) (convergence_threshold slv) then (sl', None)
             else iterate_loop slv nodes cycle_order k (Some s) sl')"

definition iterate_until_converged ::
  "solver \<Rightarrow> (string \<times> node) list \<Rightarrow> string list \<Rightarrow> store \<Rightarrow> run" where
  "iterate_until_converged slv nodes cycle_order st =
     iterate_loop slv nodes cycle_order (nat (max_iterations slv)) None (st, [])"

text \<open>Sequencing of the phases of \<^verbatim>\<open>solve\<close>: an exception ends the call.\<close>

definition and_then :: "run \<Rightarrow> (store \<times> string list \<Rightarrow> run) \<Rightarrow> run" where
  "and_then r f = (case r of (sl, Some e) \<Rightarrow> (sl, Some e) | (sl, None) \<Rightarrow> f sl)"

definition depends_on_cycle :: "string graph \<Rightarrow> string list \<Rightarrow> string \<Rightarrow> bool" where
  "depends_on_cycle g cycle_node_ids nid =
     list_ex (\<lambda>pred. pred \<in> set cycle_node_ids) (predecessors g nid)"

definition cycle_phase ::
  "solver \<Rightarrow> (string \<times> node) list \<Rightarrow> string list \<Rightarrow> store \<times> string list \<Rightarrow> run" where
  "cycle_phase slv nodes cycle_order sl =
     (case iterate_until_converged slv nodes cycle_order (fst sl) of
        ((st', cycle_exec), exc) \<Rightarrow> ((st', snd sl @ cycle_exec), exc))"

definition solve ::
  "(string list \<Rightarrow> string list) \<Rightarrow> solver \<Rightarrow> (string \<times> node) list \<Rightarrow> (string \<times> string) list
     \<Rightarrow> store \<Rightarrow> run" where
  "solve set_order slv nodes edges st =
     (let graph = build_graph (map fst nodes) edges;
          cycles = simple_cycle_nodes graph
      in if cycles = [] then run_nodes nodes (kahns_sort graph) (st, [])
         else
           (let cycle_node_ids = set_order cycles;
                acyclic_node_ids = filter (\<lambda>n. n \<notin> set cycle_node_ids) (g_nodes graph);
                acyclic_subgraph = subgraph_copy set_order graph acyclic_node_ids;
                acyclic_order = kahns_sort acyclic_subgraph;
                pre_cycle = filter (\<lambda>nid. \<not> depends_on_cycle graph cycle_node_ids nid) acyclic_order;
                post_cycle = filter (\<lambda>nid. depends_on_cycle graph cycle_node_ids nid) acyclic_order;
                cycle_order = resolve_cycle_order graph cycle_node_ids
            in and_then (and_then (run_nodes nodes pre_cycle (st, []))
                                  (cycle_phase slv nodes cycle_order))
                        (run_nodes nodes post_cycle)))"

section \<open>The engine (GraphEngine)\<close>

text \<open>A node descriptor of the graph description, and the default registry.\<close>

record raw_node =
  rn_id :: string
  rn_type :: "string option"
  rn_label :: string
  rn_params_num :: "(string \<times> real) list"
  rn_params_str :: "(string \<times> string) list"
  rn_params_expr :: "pyexpr option"
  rn_inputs :: "string list"
  rn_outputs :: "string list"

definition REGISTRY :: "(string \<times> node_class) list" where
  "REGISTRY =
     [(''motor'', MotorNode), (''heater'', HeaterNode), (''hydraulic'', HydraulicNode),
      (''formula'', FormulaNode), (''sweep'', SweepNode)]"

definition create_node :: "raw_node \<Rightarrow> error + node" where
  "create_node rn =
     (let type_name = (case rn_type rn of None \<Rightarrow> ''formula'' | Some t \<Rightarrow> t)
      in case map_of REGISTRY type_name of
           None \<Rightarrow> Inl (UnknownNodeType type_name (map fst REGISTRY))
         | Some cls \<Rightarrow>
             Inr \<lparr>node_class = cls, node_id = rn_id rn,
                  label = (if rn_label rn = [] then rn_id rn else rn_label rn),
                  params_num = rn_params_num rn, params_str = rn_params_str rn,
                  params_expr = rn_params_expr rn,
                  inputs = rn_inputs rn, outputs = rn_outputs rn\<rparr>)"

fun parse_nodes :: "raw_node list \<Rightarrow> (string \<times> node) list \<Rightarrow> error + (string \<times> node) list" where
  "parse_nodes [] nodes = Inr nodes"
| "parse_nodes (rn # rns) nodes =
     (case create_node rn of
        Inl e \<Rightarrow> Inl e
      | Inr n \<Rightarrow> parse_nodes rns (AList.update (rn_id rn) n nodes))"

record graph_json =
  raw_nodes :: "raw_node list"
  raw_edges :: "(string \<times> string) list"

definition parse_graph :: "graph_json \<Rightarrow> error + (string \<times> node) list \<times> (string \<times> string) list" where
  "parse_graph j =
     (case parse_nodes (raw_nodes j) [] of
        Inl e \<Rightarrow> Inl e
      | Inr nodes \<Rightarrow> Inr (nodes, raw_edges j))"

record sweep_result =
  r_sweep_var :: string
  r_output_var :: string
  r_sweep_values :: "real list"
  r_signature_vector :: "real list"
  r_steps :: nat

text \<open>
  The loop of \<^verbatim>\<open>run_sweep\<close>. Besides the list of results the model keeps the trace of
  all node executions of all solves, so that what a call has executed can be stated.
\<close>

fun sweep_loop ::
  "(string list \<Rightarrow> string list) \<Rightarrow> solver \<Rightarrow> (string \<times> node) list \<Rightarrow> (string \<times> string) list
     \<Rightarrow> node \<Rightarrow> store option \<Rightarrow> real list \<Rightarrow> real list \<Rightarrow> string list
     \<Rightarrow> (error + real list) \<times> string list" where
  "sweep_loop set_order slv nodes edges sweep_node initial_state [] results trace =
     (Inr results, trace)"
| "sweep_loop set_order slv nodes edges sweep_node initial_state (val # vals) results trace =
     (let state = state_set (SystemState initial_state) (sweep_var sweep_node) val
      in case solve set_order slv nodes edges state of
           ((st', order), Some e) \<Rightarrow> (Inl e, trace @ order)
         | ((final_state, order), None) \<Rightarrow>
             sweep_loop set_order slv nodes edges sweep_node initial_state vals
               (results @ [state_get final_state (output_var sweep_node) 0]) (trace @ order))"

definition run_sweep ::
  "(string list \<Rightarrow> string list) \<Rightarrow> solver \<Rightarrow> graph_json \<Rightarrow> string \<Rightarrow> store option
     \<Rightarrow> (error + sweep_result) \<times> string list" where
  "run_sweep set_order slv j sweep_node_id initial_state =
     (case parse_graph j of
        Inl e \<Rightarrow> (Inl e, [])
      | Inr (nodes, edges) \<Rightarrow>
          (case map_of nodes sweep_node_id of
             None \<Rightarrow> (Inl (SweepNodeNotFound sweep_node_id), [])
           | Some sweep_node \<Rightarrow>
               if node_class sweep_node \<noteq> SweepNode
               then (Inl (NotASweepNode sweep_node_id (class_name (node_class sweep_node))), [])
               else
                 (case get_sweep_range sweep_node of
                    Inl e \<Rightarrow> (Inl e, [])
                  | Inr sweep_values \<Rightarrow>
                      (case sweep_loop set_order slv nodes edges sweep_node initial_state
                              sweep_values [] [] of
                         (Inl e, trace) \<Rightarrow> (Inl e, trace)
                       | (Inr results, trace) \<Rightarrow>
                           (Inr \<lparr>r_sweep_var = sweep_var sweep_node,
                                 r_output_var = output_var sweep_node,
                                 r_sweep_values = sweep_values,
                                 r_signature_vector = results,
                                 r_steps = length sweep_values\<rparr>, trace)))))"

section \<open>Notions used in the statements\<close>


text \<open>The known nodes outside every cycle, split by their direct predecessors: those with
  none on a cycle (pre-cycle) and those with at least one on a cycle (post-cycle).\<close>

definition pre_cycle_set :: "(string \<times> node) list \<Rightarrow> (string \<times> string) list \<Rightarrow> string set" where
  "pre_cycle_set nodes edges =
     {n \<in> fst ` set nodes. (n, n) \<notin> (set edges)\<^sup>+ \<and>
        \<not> (\<exists>p. (p, n) \<in> set edges \<and> (p, p) \<in> (set edges)\<^sup>+)}"

definition post_cycle_set :: "(string \<times> node) list \<Rightarrow> (string \<times> string) list \<Rightarrow> string set" where
  "post_cycle_set nodes edges =
     {n \<in> fst ` set nodes. (n, n) \<notin> (set edges)\<^sup>+ \<and>
        (\<exists>p. (p, n) \<in> set edges \<and> (p, p) \<in> (set edges)\<^sup>+)}"

text \<open>The store after one pass over the cycle nodes.\<close>

definition pass_store :: "(string \<times> node) list \<Rightarrow> string list \<Rightarrow> store \<Rightarrow> store" where
  "pass_store nodes order st = fst (fst (run_nodes nodes order (st, [])))"

section \<open>Example graphs\<close>

text \<open>The graphs of the repository's tests, and small graphs used to instantiate the theorems.
  \<open>formula_node\<close> is the constructor call \<^verbatim>\<open>FormulaNode(id, inputs=..., outputs=..., params={"expression": ...})\<close>.\<close>

definition formula_node :: "string \<Rightarrow> string list \<Rightarrow> string list \<Rightarrow> pyexpr \<Rightarrow> node" where
  "formula_node nid ins outs e =
     \<lparr>node_class = FormulaNode, node_id = nid, label = nid, params_num = [], params_str = [],
      params_expr = Some e, inputs = ins, outputs = outs\<rparr>"

definition chain_nodes :: "(string \<times> node) list" where
  "chain_nodes =
     [(''A'', formula_node ''A'' [] [''a_out''] (BinOp (Const 1) Add (Const 1))),
      (''B'', formula_node ''B'' [''a_out''] [''b_out''] (BinOp (Name ''a_out'') Mult (Const 2))),
      (''C'', formula_node ''C'' [''b_out''] [''c_out''] (BinOp (Name ''b_out'') Add (Const 10)))]"

definition chain_edges :: "(string \<times> string) list" where
  "chain_edges = [(''A'', ''B''), (''B'', ''C'')]"

definition pair_nodes :: "(string \<times> node) list" where
  "pair_nodes =
     [(''A'', formula_node ''A'' [] [''a_out''] (Const 1)),
      (''B'', formula_node ''B'' [] [''b_out''] (Const 2))]"

definition raw_formula :: raw_node where
  "raw_formula =
     \<lparr>rn_id = ''f'', rn_type = Some ''formula'', rn_label = [], rn_params_num = [],
      rn_params_str = [], rn_params_expr = Some (BinOp (Const 2) Mult (Name ''t'')),
      rn_inputs = [''t''], rn_outputs = [''out'']\<rparr>"

definition raw_sweep :: raw_node where
  "raw_sweep =
     \<lparr>rn_id = ''sw'', rn_type = Some ''sweep'', rn_label = [],
      rn_params_num = [(''min_val'', 1), (''max_val'', 3), (''steps'', 3)],
      rn_params_str = [(''sweep_var'', ''t''), (''output_var'', ''out'')],
      rn_params_expr = None, rn_inputs = [], rn_outputs = []\<rparr>"

definition sweep_json :: graph_json where
  "sweep_json = \<lparr>raw_nodes = [raw_formula, raw_sweep], raw_edges = [(''f'', ''sw'')]\<rparr>"

definition sweep_json_nodes :: "(string \<times> node) list" where
  "sweep_json_nodes =
     [(''f'', \<lparr>node_class = FormulaNode, node_id = ''f'', label = ''f'', params_num = [],
              params_str = [], params_expr = Some (BinOp (Const 2) Mult (Name ''t'')),
              inputs = [''t''], outputs = [''out'']\<rparr>),
      (''sw'', \<lparr>node_class = SweepNode, node_id = ''sw'', label = ''sw'',
               params_num = [(''min_val'', 1), (''max_val'', 3), (''steps'', 3)],
               params_str = [(''sweep_var'', ''t''), (''output_var'', ''out'')],
               params_expr = None, inputs = [], outputs = []\<rparr>)]"


definition xy_nodes :: "(string \<times> node) list" where
  "xy_nodes =
     [(''X'', formula_node ''X'' [''y_val''] [''x_val'']
               (BinOp (BinOp (Const 0.5) Mult (Name ''y_val'')) Add (Const 1))),
      (''Y'', formula_node ''Y'' [''x_val''] [''y_val'']
               (BinOp (BinOp (Const 0.3) Mult (Name ''x_val'')) Add (Const 2)))]"

definition xy_edges :: "(string \<times> string) list" where
  "xy_edges = [(''X'', ''Y''), (''Y'', ''X'')]"

definition mixed_nodes :: "(string \<times> node) list" where
  "mixed_nodes =
     [(''P'', formula_node ''P'' [] [''p_out''] (Const 1)),
      (''X'', formula_node ''X'' [''y_val''] [''x_val'']
               (BinOp (BinOp (Const 0.5) Mult (Name ''y_val'')) Add (Const 1))),
      (''Y'', formula_node ''Y'' [''x_val''] [''y_val'']
               (BinOp (BinOp (Const 0.3) Mult (Name ''x_val'')) Add (Const 2))),
      (''Q'', formula_node ''Q'' [''x_val''] [''q_out''] (BinOp (Name ''x_val'') Add (Const 1)))]"

definition mixed_edges :: "(string \<times> string) list" where
  "mixed_edges = [(''P'', ''X''), (''X'', ''Y''), (''Y'', ''X''), (''X'', ''Q'')]"

section \<open>Kahn's algorithm is correct\<close>

lemma relax_distinct:
  "distinct ss \<Longrightarrow>
   relax ss (d, q) = ((\<lambda>v. if v \<in> set ss then d v - 1 else d v), q @ filter (\<lambda>s. d s = 1) ss)"
proof (induction ss arbitrary: d q)
  case Nil
  then show ?case by (simp add: relax_def)
next
  case (Cons s ss)
  let ?d = "d(s := d s - 1)"
  let ?q = "if ?d s = 0 then q @ [s] else q"
  have step: "relax (s # ss) (d, q) = relax ss (?d, ?q)"
    by (simp add: relax_def relax_step_def Let_def)
  have s: "s \<notin> set ss" and dss: "distinct ss" using Cons.prems by simp_all
  have f: "filter (\<lambda>t. ?d t = 1) ss = filter (\<lambda>t. d t = 1) ss"
    using s by (intro filter_cong) auto
  show ?case
    unfolding step Cons.IH[OF dss] f using s by (auto simp: fun_eq_iff)
qed

lemma fold_incr:
  "fold (\<lambda>e d. d(snd e := d (snd e) + 1)) es d0 v
     = d0 v + int (length (filter (\<lambda>e. snd e = v) es))"
  by (induction es arbitrary: d0) auto

lemma successors_set: "set (successors g u) = {v. (u, v) \<in> set (g_edges g)}"
  by (auto simp: successors_def image_iff)

lemma predecessors_set: "set (predecessors g v) = {u. (u, v) \<in> set (g_edges g)}"
  by (auto simp: predecessors_def image_iff)

lemma successors_distinct: "distinct (g_edges g) \<Longrightarrow> distinct (successors g u)"
  by (auto simp: successors_def distinct_map inj_on_def)

lemma edges_view_set:
  "fst ` set (g_edges g) \<subseteq> set (g_nodes g) \<Longrightarrow> set (edges_view g) = set (g_edges g)"
  by (auto simp: edges_view_def successors_set image_iff)

lemma distinct_concat_map:
  "distinct ns \<Longrightarrow> (\<And>u. distinct (f u)) \<Longrightarrow>
   (\<And>u u'. u \<noteq> u' \<Longrightarrow> set (f u) \<inter> set (f u') = {}) \<Longrightarrow> distinct (concat (map f ns))"
proof (induction ns)
  case Nil
  then show ?case by simp
next
  case (Cons a ns)
  have "set (f a) \<inter> set (f u) = {}" if "u \<in> set ns" for u
    using Cons.prems(1) that by (intro Cons.prems(3)) auto
  then show ?case using Cons by auto
qed

lemma edges_view_distinct:
  assumes "distinct (g_nodes g)" "distinct (g_edges g)"
  shows "distinct (edges_view g)"
  unfolding edges_view_def
proof (rule distinct_concat_map[OF assms(1)])
  show "\<And>u. distinct (map (Pair u) (successors g u))"
    using successors_distinct[OF assms(2)] by (auto simp: distinct_map inj_on_def)
  show "\<And>u u'. u \<noteq> u' \<Longrightarrow> set (map (Pair u) (successors g u)) \<inter> set (map (Pair u') (successors g u')) = {}"
    by auto
qed

lemma card_in_edges:
  "card {e \<in> set es. snd e = v} = card {u. (u, v) \<in> set es}"
proof -
  have "{u. (u, v) \<in> set es} = fst ` {e \<in> set es. snd e = v}"
    by (auto simp: image_iff)
  moreover have "inj_on fst {e \<in> set es. snd e = v}"
    by (auto simp: inj_on_def prod_eq_iff)
  ultimately show ?thesis by (simp add: card_image)
qed

lemma in_degree_init_card:
  assumes "wf_graph g" 
  shows "in_degree_init g v = int (card {u. (u, v) \<in> set (g_edges g)})"
proof -
  have d: "distinct (edges_view g)" and s: "set (edges_view g) = set (g_edges g)"
    using assms edges_view_distinct edges_view_set unfolding wf_graph_def by blast+
  have "length (filter (\<lambda>e. snd e = v) (edges_view g)) = card {e \<in> set (edges_view g). snd e = v}"
    using d by (simp add: distinct_length_filter Int_def conj_commute)
  then show ?thesis
    unfolding in_degree_init_def fold_incr s card_in_edges by simp
qed

definition kahn_inv :: "'a graph \<Rightarrow> ('a \<Rightarrow> int) \<Rightarrow> 'a list \<Rightarrow> 'a list \<Rightarrow> bool" where
  "kahn_inv g d q res \<longleftrightarrow>
     distinct (res @ q) \<and> set (res @ q) \<subseteq> set (g_nodes g) \<and>
     (\<forall>v \<in> set (g_nodes g). d v = int (card {u. (u, v) \<in> set (g_edges g) \<and> u \<notin> set res})) \<and>
     (\<forall>v \<in> set (g_nodes g). d v = 0 \<longleftrightarrow> v \<in> set (res @ q)) \<and>
     (\<forall>e \<in> set (g_edges g). snd e \<in> set res \<longrightarrow> fst e \<in> set (takeWhile (\<lambda>x. x \<noteq> snd e) res))"

lemma kahn_inv_init:
  assumes "wf_graph g"
  shows "kahn_inv g (in_degree_init g) (filter (\<lambda>n. in_degree_init g n = 0) (g_nodes g)) []"
  using assms unfolding kahn_inv_def
  by (auto simp: in_degree_init_card wf_graph_def)

lemma card_unprocessed_step:
  assumes "finite E" "n \<notin> set res"
  shows "int (card {u. (u, v) \<in> E \<and> u \<notin> set (res @ [n])})
         = int (card {u. (u, v) \<in> E \<and> u \<notin> set res}) - (if (n, v) \<in> E then 1 else 0)"
proof -
  let ?A = "{u. (u, v) \<in> E \<and> u \<notin> set res}"
  have "?A \<subseteq> fst ` E"
  proof
    fix u assume "u \<in> ?A"
    then have "(u, v) \<in> E" by simp
    then show "u \<in> fst ` E" by (rule image_eqI[rotated]) simp
  qed
  then have fin: "finite ?A"
    using assms(1) by (meson finite_imageI finite_subset)
  have eq: "{u. (u, v) \<in> E \<and> u \<notin> set (res @ [n])} = ?A - {n}"
    by auto
  show ?thesis
  proof (cases "(n, v) \<in> E")
    case True
    then have "n \<in> ?A" using assms(2) by simp
    then have "card ?A = Suc (card (?A - {n}))"
      by (rule card.remove[OF fin])
    then show ?thesis unfolding eq using True by simp
  next
    case False
    then have "?A - {n} = ?A" by auto
    then show ?thesis unfolding eq using False by simp
  qed
qed

lemma kahn_inv_step:
  assumes wf: "wf_graph g" and inv: "kahn_inv g d (n # q) res"
  shows "kahn_inv g (fst (relax (successors g n) (d, q)))
                    (snd (relax (successors g n) (d, q))) (res @ [n])"
proof -
  let ?E = "set (g_edges g)" and ?V = "set (g_nodes g)"
  let ?ss = "successors g n"
  let ?d' = "\<lambda>v. if v \<in> set ?ss then d v - 1 else d v"
  let ?new = "filter (\<lambda>s. d s = 1) ?ss"
  let ?U = "\<lambda>v r. {u. (u, v) \<in> ?E \<and> u \<notin> set r}"
  have dss: "distinct ?ss" using wf by (simp add: wf_graph_def successors_distinct)
  have rel: "relax ?ss (d, q) = (?d', q @ ?new)"
    by (rule relax_distinct[OF dss])
  have ss: "set ?ss = {v. (n, v) \<in> ?E}" by (rule successors_set)
  have ssV: "set ?ss \<subseteq> ?V" using wf unfolding ss wf_graph_def by force
  have finE: "finite ?E" by simp
  have a: "distinct (res @ n # q)" and b: "set (res @ n # q) \<subseteq> ?V"
    and c: "\<And>v. v \<in> ?V \<Longrightarrow> d v = int (card (?U v res))"
    and d0: "\<And>v. v \<in> ?V \<Longrightarrow> d v = 0 \<longleftrightarrow> v \<in> set (res @ n # q)"
    and e: "\<And>e. e \<in> ?E \<Longrightarrow> snd e \<in> set res \<Longrightarrow> fst e \<in> set (takeWhile (\<lambda>x. x \<noteq> snd e) res)"
    using inv unfolding kahn_inv_def by blast+
  have nV: "n \<in> ?V" and nres: "n \<notin> set res" using a b by auto
  have finU: "finite (?U v r)" for v r
  proof -
    have "?U v r \<subseteq> fst ` ?E"
    proof
      fix u assume "u \<in> ?U v r"
      then have "(u, v) \<in> ?E" by simp
      then show "u \<in> fst ` ?E" by (rule image_eqI[rotated]) simp
    qed
    then show ?thesis by (meson finE finite_imageI finite_subset)
  qed
  have "d n = 0" using d0[OF nV] by simp
  then have "card (?U n res) = 0" using c[OF nV] by simp
  then have Un: "?U n res = {}" using finU by simp
  have succ_pos: "d v \<noteq> 0" if "v \<in> set ?ss" for v
  proof -
    have vV: "v \<in> ?V" using that ssV by auto
    have "n \<in> ?U v res" using that nres unfolding ss by simp
    then have "card (?U v res) \<noteq> 0" using finU[of v res] by auto
    then show ?thesis using c[OF vV] by simp
  qed
  have succ_notin: "v \<notin> set (res @ n # q)" if "v \<in> set ?ss" for v
    using succ_pos[OF that] d0[of v] that ssV by auto
  have c': "?d' v = int (card (?U v (res @ [n])))" if "v \<in> ?V" for v
    unfolding card_unprocessed_step[OF finE nres] c[OF that] ss by simp
  have i1: "distinct ((res @ [n]) @ q @ ?new)"
    using a dss succ_notin by auto
  have i2: "set ((res @ [n]) @ q @ ?new) \<subseteq> ?V"
    using b ssV by auto
  have i4: "?d' v = 0 \<longleftrightarrow> v \<in> set ((res @ [n]) @ q @ ?new)" if "v \<in> ?V" for v
  proof (cases "v \<in> set ?ss")
    case True
    then show ?thesis using succ_notin[OF True] by auto
  next
    case False
    then show ?thesis using d0[OF that] by auto
  qed
  have i5: "fst e \<in> set (takeWhile (\<lambda>x. x \<noteq> snd e) (res @ [n]))"
    if "e \<in> ?E" "snd e \<in> set (res @ [n])" for e
  proof (cases "snd e \<in> set res")
    case True
    then have "takeWhile (\<lambda>x. x \<noteq> snd e) (res @ [n]) = takeWhile (\<lambda>x. x \<noteq> snd e) res"
      by (intro takeWhile_append1[of "snd e"]) auto
    then show ?thesis using e[OF that(1) True] by simp
  next
    case False
    then have sn: "snd e = n" using that(2) by simp
    then have "(fst e, n) \<in> ?E" using that(1) by (metis prod.collapse)
    then have "fst e \<in> set res" using Un by auto
    moreover have "takeWhile (\<lambda>x. x \<noteq> n) (res @ [n]) = res @ takeWhile (\<lambda>x. x \<noteq> n) [n]"
      by (rule takeWhile_append2) (use nres in auto)
    then have "takeWhile (\<lambda>x. x \<noteq> n) (res @ [n]) = res" by simp
    ultimately show ?thesis using sn by simp
  qed
  show ?thesis
    unfolding rel fst_conv snd_conv kahn_inv_def
    using i1 i2 c' i4 i5 by blast
qed

lemma kahn_loop_inv:
  "wf_graph g \<Longrightarrow> kahn_inv g d q res \<Longrightarrow> \<exists>d'. kahn_inv g d' [] (kahn_loop g d q res)"
proof (induction g d q res rule: kahn_loop.induct)
  case (1 g d result)
  then show ?case by auto
next
  case (2 g d node queue result)
  have "kahn_inv g (fst (relax (successors g node) (d, queue)))
                    (snd (relax (successors g node) (d, queue))) (result @ [node])"
    by (rule kahn_inv_step[OF "2.prems"])
  from "2.IH"[OF "2.prems"(1) this] show ?case by simp
qed

lemma kahns_sort_inv:
  "wf_graph g \<Longrightarrow> \<exists>d'. kahn_inv g d' [] (kahns_sort g)"
  unfolding kahns_sort_def Let_def
  by (rule kahn_loop_inv[OF _ kahn_inv_init])

section \<open>The convergence measure\<close>

lemma common_diffs_Nil: "common_diffs [] prev = {}"
  by (simp add: common_diffs_def)

lemma common_diffs_Cons:
  "common_diffs (kv # xs) prev =
     (case map_of prev (fst kv) of None \<Rightarrow> {} | Some p \<Rightarrow> {\<bar>snd kv - p\<bar>}) \<union> common_diffs xs prev"
  unfolding common_diffs_def
  by (cases kv) (auto split: option.splits)

lemma finite_common_diffs: "finite (common_diffs xs prev)"
  by (induction xs) (auto simp: common_diffs_Nil common_diffs_Cons split: option.splits)

lemma fold_delta_step:
  "fold (delta_step prev) xs m = Max (insert m (common_diffs xs prev))"
proof (induction xs arbitrary: m)
  case Nil
  then show ?case by (simp add: common_diffs_Nil)
next
  case (Cons kv xs)
  have fin: "finite (common_diffs xs prev)" by (rule finite_common_diffs)
  show ?case
  proof (cases "map_of prev (fst kv)")
    case None
    then have "delta_step prev kv m = m" by (simp add: delta_step_def)
    then have "fold (delta_step prev) (kv # xs) m = Max (insert m (common_diffs xs prev))"
      by (simp add: Cons.IH)
    then show ?thesis using None by (simp add: common_diffs_Cons)
  next
    case (Some p)
    have "delta_step prev kv m = max m \<bar>snd kv - p\<bar>"
      using Some by (simp add: delta_step_def Let_def max_def)
    then have "fold (delta_step prev) (kv # xs) m
               = Max (insert (max m \<bar>snd kv - p\<bar>) (common_diffs xs prev))"
      by (simp add: Cons.IH)
    also have "\<dots> = Max (insert m (insert \<bar>snd kv - p\<bar> (common_diffs xs prev)))"
    proof (cases "common_diffs xs prev = {}")
      case True
      then show ?thesis by (simp add: max.commute)
    next
      case False
      then show ?thesis using fin by (simp add: max.assoc)
    qed
    finally show ?thesis using Some by (simp add: common_diffs_Cons)
  qed
qed

lemma common_diffs_nonneg: "d \<in> common_diffs xs prev \<Longrightarrow> 0 \<le> d"
  by (auto simp: common_diffs_def)

text \<open>
  Claim C5. \<^verbatim>\<open>delta\<close> against an empty snapshot is the infinite sentinel, which is below
  no threshold; against a non-empty snapshot it is the greatest absolute difference over
  the keys present in both the store and the snapshot, and 0 when they share no key.
\<close>

theorem delta_is_max_abs_difference:
  "delta variables [] = PosInf \<and> \<not> float_less (delta variables []) threshold \<and>
   (previous \<noteq> [] \<and> common_diffs variables previous \<noteq> {} \<longrightarrow>
      delta variables previous = Fin (Max (common_diffs variables previous))) \<and>
   (previous \<noteq> [] \<and> common_diffs variables previous = {} \<longrightarrow>
      delta variables previous = Fin 0)"
proof -
  have fin: "finite (common_diffs variables previous)" by (rule finite_common_diffs)
  have "Max (insert 0 (common_diffs variables previous)) = Max (common_diffs variables previous)"
    if ne: "common_diffs variables previous \<noteq> {}"
  proof -
    have "0 \<le> Max (common_diffs variables previous)"
      using fin ne common_diffs_nonneg by (meson Max_in)
    then show ?thesis using fin ne by (simp add: max_def)
  qed
  then show ?thesis
    by (auto simp: delta_def fold_delta_step)
qed

theorem delta_is_max_abs_difference_witness:
  "delta [(''a'', 10.5), (''b'', 19.8)] [(''a'', 10), (''b'', 20)] = Fin 0.5
   \<and> delta [(''a'', 1)] [] = PosInf \<and> \<not> float_less (delta [(''a'', 1)] []) 0.001
   \<and> delta [(''a'', 1)] [(''c'', 2)] = Fin 0"
proof -
  have cd: "common_diffs [(''a'', 10.5), (''b'', 19.8)] [(''a'', 10), (''b'', 20)] = {0.5, 0.2}"
    by (simp add: common_diffs_Cons common_diffs_Nil insert_commute)
  have cd2: "common_diffs [(''a'', 1)] [(''c'', 2)] = {}"
    by (simp add: common_diffs_Cons common_diffs_Nil)
  have m: "Max {0.5, 0.2 :: real} = 0.5" by simp
  have a: "delta [(''a'', 10.5), (''b'', 19.8)] [(''a'', 10), (''b'', 20)] = Fin 0.5"
    using delta_is_max_abs_difference[of "[(''a'', 10.5), (''b'', 19.8)]" "0.001" "[(''a'', 10), (''b'', 20)]"]
    unfolding cd m by simp
  have b: "delta [(''a'', 1)] [(''c'', 2)] = Fin 0"
    using delta_is_max_abs_difference[of "[(''a'', 1)]" "0.001" "[(''c'', 2)]"]
    unfolding cd2 by simp
  have c: "delta [(''a'', 1)] [] = PosInf \<and> \<not> float_less (delta [(''a'', 1)] []) 0.001"
    using delta_is_max_abs_difference[of "[(''a'', 1)]" "0.001" "[]"] by simp
  show ?thesis using a b c by simp
qed

section \<open>Properties of the order computed by Kahn's algorithm\<close>

lemma precedes_takeWhile:
  "precedes u v xs \<longleftrightarrow> v \<in> set xs \<and> u \<in> set (takeWhile (\<lambda>x. x \<noteq> v) xs)"
proof (induction xs)
  case Nil
  then show ?case by (simp add: precedes_def)
next
  case (Cons a xs)
  show ?case
  proof (cases "a = v")
    case True
    then show ?thesis by (simp add: precedes_def index_of_def)
  next
    case False
    note av = this
    show ?thesis
    proof (cases "a = u")
      case True
      then show ?thesis using av by (auto simp: precedes_def index_of_def)
    next
      case False
      then show ?thesis using av Cons.IH by (auto simp: precedes_def index_of_def)
    qed
  qed
qed

lemma takeWhile_filter_mem:
  "u \<in> set (takeWhile (\<lambda>x. x \<noteq> v) xs) \<Longrightarrow> P u \<Longrightarrow>
   u \<in> set (takeWhile (\<lambda>x. x \<noteq> v) (filter P xs))"
  by (induction xs) (auto split: if_splits)

lemma precedes_filter:
  "precedes u v xs \<Longrightarrow> P u \<Longrightarrow> P v \<Longrightarrow> precedes u v (filter P xs)"
  unfolding precedes_takeWhile by (simp add: takeWhile_filter_mem)

lemma precedes_append_left:
  "precedes u v xs \<Longrightarrow> precedes u v (xs @ ys)"
  unfolding precedes_takeWhile by (auto simp: takeWhile_append1)

lemma kahns_sort_sound:
  assumes "wf_graph g"
  shows "distinct (kahns_sort g)" and "set (kahns_sort g) \<subseteq> set (g_nodes g)"
    and "\<And>u v. (u, v) \<in> set (g_edges g) \<Longrightarrow> v \<in> set (kahns_sort g) \<Longrightarrow> precedes u v (kahns_sort g)"
proof -
  obtain d where inv: "kahn_inv g d [] (kahns_sort g)"
    using kahns_sort_inv[OF assms] by blast
  show "distinct (kahns_sort g)" "set (kahns_sort g) \<subseteq> set (g_nodes g)"
    using inv by (simp_all add: kahn_inv_def)
  fix u v assume "(u, v) \<in> set (g_edges g)" "v \<in> set (kahns_sort g)"
  moreover have "\<forall>e \<in> set (g_edges g). snd e \<in> set (kahns_sort g) \<longrightarrow>
       fst e \<in> set (takeWhile (\<lambda>x. x \<noteq> snd e) (kahns_sort g))"
    using inv unfolding kahn_inv_def by blast
  ultimately have "u \<in> set (takeWhile (\<lambda>x. x \<noteq> v) (kahns_sort g))" by fastforce
  then show "precedes u v (kahns_sort g)"
    using \<open>v \<in> set (kahns_sort g)\<close> by (simp add: precedes_takeWhile)
qed

lemma kahns_sort_complete:
  assumes wf: "wf_graph g" and ac: "acyclic (set (g_edges g))"
  shows "set (kahns_sort g) = set (g_nodes g)"
proof (rule ccontr)
  let ?E = "set (g_edges g)" and ?V = "set (g_nodes g)" and ?r = "kahns_sort g"
  assume neq: "set ?r \<noteq> ?V"
  obtain d where inv: "kahn_inv g d [] ?r"
    using kahns_sort_inv[OF wf] by blast
  have sub: "set ?r \<subseteq> ?V"
    and c: "\<And>v. v \<in> ?V \<Longrightarrow> d v = int (card {u. (u, v) \<in> ?E \<and> u \<notin> set ?r})"
    and d0: "\<And>v. v \<in> ?V \<Longrightarrow> d v = 0 \<longleftrightarrow> v \<in> set ?r"
    using inv unfolding kahn_inv_def by auto
  have wfE: "wf ?E" using ac by (simp add: finite_acyclic_wf)
  obtain x where x: "x \<in> ?V - set ?r" using neq sub by blast
  have "\<exists>z \<in> ?V - set ?r. \<forall>y. (y, z) \<in> ?E \<longrightarrow> y \<notin> ?V - set ?r"
    using wfE x unfolding wf_eq_minimal by blast
  then obtain z where z: "z \<in> ?V - set ?r"
    and zmin: "\<And>y. (y, z) \<in> ?E \<Longrightarrow> y \<notin> ?V - set ?r"
    by blast
  have "{u. (u, z) \<in> ?E \<and> u \<notin> set ?r} = {}"
  proof -
    have "u \<in> set ?r" if "(u, z) \<in> ?E" for u
    proof -
      have "u \<in> ?V" using that wf unfolding wf_graph_def by force
      then show ?thesis using zmin[OF that] by simp
    qed
    then show ?thesis by blast
  qed
  then have "card {u. (u, z) \<in> ?E \<and> u \<notin> set ?r} = 0" by (simp only: card.empty)
  then have "d z = 0" using c[of z] z by simp
  then show False using d0[of z] z by simp
qed

lemma simple_cycle_nodes_empty:
  assumes "wf_graph g"
  shows "simple_cycle_nodes g = [] \<longleftrightarrow> acyclic (set (g_edges g))"
proof
  assume e: "simple_cycle_nodes g = []"
  show "acyclic (set (g_edges g))"
    unfolding acyclic_def
  proof (intro allI notI)
    fix x assume xx: "(x, x) \<in> (set (g_edges g))\<^sup>+"
    then have "x \<in> Domain ((set (g_edges g))\<^sup>+)" by blast
    then have "x \<in> Domain (set (g_edges g))" by (simp only: trancl_domain)
    then have "x \<in> fst ` set (g_edges g)" by (simp only: Domain_fst)
    then have "x \<in> set (g_nodes g)" using assms unfolding wf_graph_def by blast
    then have "x \<in> set (simple_cycle_nodes g)" using xx by (simp add: simple_cycle_nodes_def)
    then show False using e by simp
  qed
next
  assume "acyclic (set (g_edges g))"
  then show "simple_cycle_nodes g = []"
    by (simp add: simple_cycle_nodes_def acyclic_def)
qed

lemma add_node_props:
  "g_edges (add_node n g) = g_edges g"
  "set (g_nodes (add_node n g)) = insert n (set (g_nodes g))"
  "wf_graph g \<Longrightarrow> wf_graph (add_node n g)"
  by (auto simp: add_node_def wf_graph_def)

lemma add_edge_props:
  "set (g_edges (add_edge e g)) = insert e (set (g_edges g))"
  "set (g_nodes (add_edge e g)) = insert (fst e) (insert (snd e) (set (g_nodes g)))"
  "wf_graph g \<Longrightarrow> wf_graph (add_edge e g)"
proof -
  let ?g' = "add_node (snd e) (add_node (fst e) g)"
  have e': "g_edges ?g' = g_edges g" by (simp add: add_node_props)
  have n': "set (g_nodes ?g') = insert (fst e) (insert (snd e) (set (g_nodes g)))"
    by (auto simp: add_node_props)
  show "set (g_edges (add_edge e g)) = insert e (set (g_edges g))"
    by (auto simp: add_edge_def Let_def e')
  show "set (g_nodes (add_edge e g)) = insert (fst e) (insert (snd e) (set (g_nodes g)))"
    by (simp add: add_edge_def Let_def n')
  assume "wf_graph g"
  then have w: "wf_graph ?g'" by (simp add: add_node_props)
  show "wf_graph (add_edge e g)"
    using w n' unfolding add_edge_def Let_def wf_graph_def by auto
qed

lemma add_nodes_from_props:
  "g_edges (add_nodes_from ns g) = g_edges g"
  "set (g_nodes (add_nodes_from ns g)) = set ns \<union> set (g_nodes g)"
  "wf_graph g \<Longrightarrow> wf_graph (add_nodes_from ns g)"
  unfolding add_nodes_from_def
  by (induction ns arbitrary: g) (auto simp: add_node_props)

lemma add_edges_from_props:
  "set (g_edges (add_edges_from es g)) = set es \<union> set (g_edges g)"
  "set (g_nodes (add_edges_from es g)) = fst ` set es \<union> snd ` set es \<union> set (g_nodes g)"
  "wf_graph g \<Longrightarrow> wf_graph (add_edges_from es g)"
  unfolding add_edges_from_def
  by (induction es arbitrary: g) (auto simp: add_edge_props)

lemma wf_empty_graph: "wf_graph empty_graph"
  by (simp add: wf_graph_def empty_graph_def)

lemma wf_build_graph: "wf_graph (build_graph keys edges)"
  unfolding build_graph_def
  by (intro add_edges_from_props(3) add_nodes_from_props(3) wf_empty_graph)

lemma build_graph_props:
  "set (g_edges (build_graph keys edges)) = set edges"
  "set (g_nodes (build_graph keys edges)) = set keys \<union> fst ` set edges \<union> snd ` set edges"
  unfolding build_graph_def
  by (auto simp: add_edges_from_props add_nodes_from_props empty_graph_def)

section \<open>The acyclic case of solve\<close>

lemma run_nodes_log:
  "run_nodes nodes ids sl = ((st', order), None) \<Longrightarrow>
   order = snd sl @ filter (\<lambda>n. n \<in> fst ` set nodes) ids"
proof (induction ids arbitrary: sl)
  case Nil
  then show ?case by simp
next
  case (Cons nid ids)
  show ?case
  proof (cases "map_of nodes nid")
    case None
    then have "nid \<notin> fst ` set nodes" by (simp add: map_of_eq_None_iff)
    moreover have "run_nodes nodes ids sl = ((st', order), None)"
      using Cons.prems None by simp
    ultimately show ?thesis using Cons.IH by simp
  next
    case (Some n)
    then have mem: "nid \<in> fst ` set nodes"
      by (metis map_of_eq_None_iff option.distinct(1))
    obtain st'' exc where c: "compute n (fst sl) = (st'', exc)" by (cases "compute n (fst sl)")
    show ?thesis
    proof (cases exc)
      case None
      then have "run_nodes nodes ids (st'', snd sl @ [nid]) = ((st', order), None)"
        using Cons.prems Some c by simp
      from Cons.IH[OF this] show ?thesis using mem by simp
    next
      case (Some e)
      then show ?thesis using Cons.prems \<open>map_of nodes nid = Some n\<close> c by simp
    qed
  qed
qed

lemma solve_acyclic:
  assumes "simple_cycle_nodes (build_graph (map fst nodes) edges) = []"
  shows "solve set_order slv nodes edges st
         = run_nodes nodes (kahns_sort (build_graph (map fst nodes) edges)) (st, [])"
  using assms by (simp add: solve_def Let_def)

lemma chain_graph:
  "build_graph (map fst chain_nodes) chain_edges
   = \<lparr>g_nodes = [''A'', ''B'', ''C''], g_edges = [(''A'', ''B''), (''B'', ''C'')]\<rparr>"
  by (simp add: chain_nodes_def chain_edges_def build_graph_def add_edges_from_def
      add_nodes_from_def add_node_def add_edge_def empty_graph_def Let_def)

lemma chain_acyclic: "simple_cycle_nodes (build_graph (map fst chain_nodes) chain_edges) = []"
  unfolding chain_graph simple_cycle_nodes_def by code_simp

lemma chain_kahn: "kahns_sort (build_graph (map fst chain_nodes) chain_edges) = [''A'', ''B'', ''C'']"
  unfolding chain_graph
  by (simp add: kahns_sort_def in_degree_init_def edges_view_def successors_def relax_def
      relax_step_def Let_def)

lemma chain_run:
  "run_nodes chain_nodes [''A'', ''B'', ''C''] ([], [])
   = (([(''a_out'', 2), (''b_out'', 4), (''c_out'', 14)], [''A'', ''B'', ''C'']), None)"
  by (simp add: chain_nodes_def formula_node_def compute_def formula_compute_def expression_def
      eval_float_def build_namespace_def SAFE_BUILTINS_def to_dict_def state_set_def
      output_name_def Let_def)

lemma solve_acyclic_order:
  assumes ac: "simple_cycle_nodes (build_graph (map fst nodes) edges) = []"
    and ret: "solve set_order slv nodes edges st = ((st', order), None)"
  shows "order = filter (\<lambda>n. n \<in> fst ` set nodes) (kahns_sort (build_graph (map fst nodes) edges))"
  using run_nodes_log[of nodes _ "(st, [])" st' order] ret
  unfolding solve_acyclic[OF ac] by simp

text \<open>
  Claim C1. When the graph has no cycle, the execution order that \<^verbatim>\<open>solve\<close> returns
  lists the source of every edge between two known nodes before its target. For the chain
  A, B, C the order is A, B, C and the values are 2, 4 and 14.
\<close>

theorem solve_acyclic_topological:
  "(simple_cycle_nodes (build_graph (map fst nodes) edges) = [] \<and>
    solve set_order slv nodes edges st = ((st', order), None) \<longrightarrow>
    (\<forall>u v. (u, v) \<in> set edges \<and> u \<in> fst ` set nodes \<and> v \<in> fst ` set nodes \<longrightarrow>
       precedes u v order \<and> index_of order u < index_of order v))
   \<and> solve set_order slv chain_nodes chain_edges []
       = (([(''a_out'', 2), (''b_out'', 4), (''c_out'', 14)], [''A'', ''B'', ''C'']), None)"
proof (intro conjI impI allI)
  let ?g = "build_graph (map fst nodes) edges"
  fix u v
  assume h: "simple_cycle_nodes ?g = [] \<and> solve set_order slv nodes edges st = ((st', order), None)"
    and e: "(u, v) \<in> set edges \<and> u \<in> fst ` set nodes \<and> v \<in> fst ` set nodes"
  have wf: "wf_graph ?g" by (rule wf_build_graph)
  have ac: "acyclic (set (g_edges ?g))"
    using h simple_cycle_nodes_empty[OF wf] by simp
  have ord: "order = filter (\<lambda>n. n \<in> fst ` set nodes) (kahns_sort ?g)"
    using solve_acyclic_order h by blast
  have "v \<in> set (g_nodes ?g)" using e by (auto simp: build_graph_props)
  then have "v \<in> set (kahns_sort ?g)" using kahns_sort_complete[OF wf ac] by simp
  moreover have "(u, v) \<in> set (g_edges ?g)" using e by (simp add: build_graph_props)
  ultimately have "precedes u v (kahns_sort ?g)" by (rule kahns_sort_sound(3)[OF wf, rotated])
  then show p: "precedes u v order" unfolding ord using e by (intro precedes_filter) auto
  then show "index_of order u < index_of order v" by (simp add: precedes_def)
next
  show "solve set_order slv chain_nodes chain_edges []
       = (([(''a_out'', 2), (''b_out'', 4), (''c_out'', 14)], [''A'', ''B'', ''C'']), None)"
    unfolding solve_acyclic[OF chain_acyclic] chain_kahn by (rule chain_run)
qed

theorem solve_acyclic_topological_witness:
  "index_of [''A'', ''B'', ''C''] ''A'' < index_of [''A'', ''B'', ''C''] ''B'' \<and>
   index_of [''A'', ''B'', ''C''] ''B'' < index_of [''A'', ''B'', ''C''] ''C'' \<and>
   solve (\<lambda>xs. xs) DAGSolver chain_nodes chain_edges []
       = (([(''a_out'', 2), (''b_out'', 4), (''c_out'', 14)], [''A'', ''B'', ''C'']), None)"
proof -
  note t = solve_acyclic_topological[of chain_nodes chain_edges "\<lambda>xs. xs" DAGSolver "[]"
      "[(''a_out'', 2), (''b_out'', 4), (''c_out'', 14)]" "[''A'', ''B'', ''C'']"]
  have s: "solve (\<lambda>xs. xs) DAGSolver chain_nodes chain_edges []
       = (([(''a_out'', 2), (''b_out'', 4), (''c_out'', 14)], [''A'', ''B'', ''C'']), None)"
    using t by blast
  have ab: "(''A'', ''B'') \<in> set chain_edges \<and> ''A'' \<in> fst ` set chain_nodes \<and> ''B'' \<in> fst ` set chain_nodes"
    by (simp add: chain_edges_def chain_nodes_def)
  have bc: "(''B'', ''C'') \<in> set chain_edges \<and> ''B'' \<in> fst ` set chain_nodes \<and> ''C'' \<in> fst ` set chain_nodes"
    by (simp add: chain_edges_def chain_nodes_def)
  show ?thesis using t chain_acyclic s ab bc by blast
qed

text \<open>
  Claim C10. When the graph has no cycle, the execution order that \<^verbatim>\<open>solve\<close> returns
  holds every key of the node dictionary exactly once and nothing else. The ids that only
  the edge list mentions are nodes of the dependency graph and their edges count in the
  in-degrees, but they are never executed.
\<close>

theorem solve_acyclic_permutation:
  "distinct (map fst nodes) \<and>
   simple_cycle_nodes (build_graph (map fst nodes) edges) = [] \<and>
   solve set_order slv nodes edges st = ((st', order), None) \<longrightarrow>
     distinct order \<and> set order = set (map fst nodes) \<and> length order = length nodes \<and>
     set (g_nodes (build_graph (map fst nodes) edges))
       = set (map fst nodes) \<union> fst ` set edges \<union> snd ` set edges \<and>
     (\<forall>v. in_degree_init (build_graph (map fst nodes) edges) v
          = int (card {u. (u, v) \<in> set edges}))"
proof (intro impI)
  let ?g = "build_graph (map fst nodes) edges"
  assume h: "distinct (map fst nodes) \<and> simple_cycle_nodes ?g = [] \<and>
             solve set_order slv nodes edges st = ((st', order), None)"
  have wf: "wf_graph ?g" by (rule wf_build_graph)
  have ac: "acyclic (set (g_edges ?g))"
    using h simple_cycle_nodes_empty[OF wf] by simp
  have ord: "order = filter (\<lambda>n. n \<in> fst ` set nodes) (kahns_sort ?g)"
    using solve_acyclic_order h by blast
  have d: "distinct order" unfolding ord using kahns_sort_sound(1)[OF wf] by simp
  have s: "set order = set (map fst nodes)"
    unfolding ord using kahns_sort_complete[OF wf ac] by (auto simp: build_graph_props)
  have "length order = card (set order)" using d by (simp add: distinct_card)
  also have "\<dots> = length (map fst nodes)"
    unfolding s using h distinct_card[of "map fst nodes"] by blast
  finally have l: "length order = length nodes" by simp
  have n: "set (g_nodes ?g) = set (map fst nodes) \<union> fst ` set edges \<union> snd ` set edges"
    by (rule build_graph_props)
  have i: "\<forall>v. in_degree_init ?g v = int (card {u. (u, v) \<in> set edges})"
    using in_degree_init_card[OF wf] by (simp add: build_graph_props)
  show "distinct order \<and> set order = set (map fst nodes) \<and> length order = length nodes \<and>
     set (g_nodes ?g) = set (map fst nodes) \<union> fst ` set edges \<union> snd ` set edges \<and>
     (\<forall>v. in_degree_init ?g v = int (card {u. (u, v) \<in> set edges}))"
    using d s l n i by blast
qed

lemma pair_dangling_graph:
  "build_graph (map fst pair_nodes) [(''Z'', ''A'')]
   = \<lparr>g_nodes = [''A'', ''B'', ''Z''], g_edges = [(''Z'', ''A'')]\<rparr>"
  by (simp add: pair_nodes_def build_graph_def add_edges_from_def
      add_nodes_from_def add_node_def add_edge_def empty_graph_def Let_def)

lemma pair_dangling_acyclic:
  "simple_cycle_nodes (build_graph (map fst pair_nodes) [(''Z'', ''A'')]) = []"
  unfolding pair_dangling_graph simple_cycle_nodes_def by code_simp

lemma pair_dangling_solve:
  "solve (\<lambda>xs. xs) DAGSolver pair_nodes [(''Z'', ''A'')] []
   = (([(''b_out'', 2), (''a_out'', 1)], [''B'', ''A'']), None)"
proof -
  have k: "kahns_sort (build_graph (map fst pair_nodes) [(''Z'', ''A'')]) = [''B'', ''Z'', ''A'']"
    unfolding pair_dangling_graph
    by (simp add: kahns_sort_def in_degree_init_def edges_view_def successors_def relax_def
        relax_step_def Let_def)
  show ?thesis
    unfolding solve_acyclic[OF pair_dangling_acyclic] k
    by (simp add: pair_nodes_def formula_node_def compute_def formula_compute_def expression_def
      eval_float_def build_namespace_def SAFE_BUILTINS_def to_dict_def state_set_def
      output_name_def Let_def)
qed

lemma pair_plain_solve:
  "solve (\<lambda>xs. xs) DAGSolver pair_nodes [] []
   = (([(''a_out'', 1), (''b_out'', 2)], [''A'', ''B'']), None)"
proof -
  have g: "build_graph (map fst pair_nodes) [] = \<lparr>g_nodes = [''A'', ''B''], g_edges = []\<rparr>"
    by (simp add: pair_nodes_def build_graph_def add_edges_from_def
      add_nodes_from_def add_node_def add_edge_def empty_graph_def Let_def)
  have a: "simple_cycle_nodes (build_graph (map fst pair_nodes) []) = []"
    unfolding g simple_cycle_nodes_def by simp
  have k: "kahns_sort (build_graph (map fst pair_nodes) []) = [''A'', ''B'']"
    unfolding g
    by (simp add: kahns_sort_def in_degree_init_def edges_view_def successors_def relax_def
        relax_step_def Let_def)
  show ?thesis
    unfolding solve_acyclic[OF a] k
    by (simp add: pair_nodes_def formula_node_def compute_def formula_compute_def expression_def
      eval_float_def build_namespace_def SAFE_BUILTINS_def to_dict_def state_set_def
      output_name_def Let_def)
qed

theorem solve_acyclic_permutation_witness:
  "solve (\<lambda>xs. xs) DAGSolver pair_nodes [] [] = (([(''a_out'', 1), (''b_out'', 2)], [''A'', ''B'']), None) \<and>
   solve (\<lambda>xs. xs) DAGSolver pair_nodes [(''Z'', ''A'')] []
     = (([(''b_out'', 2), (''a_out'', 1)], [''B'', ''A'']), None) \<and>
   distinct [''B'', ''A''] \<and> set [''B'', ''A''] = set (map fst pair_nodes) \<and>
   ''Z'' \<in> set (g_nodes (build_graph (map fst pair_nodes) [(''Z'', ''A'')])) \<and>
   in_degree_init (build_graph (map fst pair_nodes) [(''Z'', ''A'')]) ''A'' = 1"
proof -
  have dk: "distinct (map fst pair_nodes)" by (simp add: pair_nodes_def)
  note t = solve_acyclic_permutation[of pair_nodes "[(''Z'', ''A'')]" "\<lambda>xs. xs" DAGSolver "[]"
      "[(''b_out'', 2), (''a_out'', 1)]" "[''B'', ''A'']"]
  have c: "card {u. (u, ''A'') \<in> set [(''Z'', ''A'')]} = 1" by simp
  have "distinct [''B'', ''A''] \<and> set [''B'', ''A''] = set (map fst pair_nodes) \<and>
        ''Z'' \<in> set (g_nodes (build_graph (map fst pair_nodes) [(''Z'', ''A'')])) \<and>
        in_degree_init (build_graph (map fst pair_nodes) [(''Z'', ''A'')]) ''A'' = 1"
    using t dk pair_dangling_acyclic pair_dangling_solve c by simp
  then show ?thesis using pair_plain_solve pair_dangling_solve by blast
qed

section \<open>Sweep lookup errors and formula evaluation errors\<close>

lemma parse_sweep_json: "parse_graph sweep_json = Inr (sweep_json_nodes, [(''f'', ''sw'')])"
  by (simp add: parse_graph_def sweep_json_def raw_formula_def raw_sweep_def create_node_def
      REGISTRY_def sweep_json_nodes_def)

text \<open>
  Claim C7. \<^verbatim>\<open>run_sweep\<close> raises the KeyError "Sweep node ... not found" when the id is
  not a key of the parsed node map, and the TypeError "Node ... is ..., not a SweepNode"
  when the node found is of another class; in both cases no node has been executed.
\<close>

theorem run_sweep_lookup_errors:
  "parse_graph j = Inr (nodes, edges) \<longrightarrow>
     (map_of nodes sweep_node_id = None \<longrightarrow>
        run_sweep set_order slv j sweep_node_id initial_state
          = (Inl (SweepNodeNotFound sweep_node_id), []) \<and>
        exception_class (SweepNodeNotFound sweep_node_id) = C_KeyError) \<and>
     (\<forall>n. map_of nodes sweep_node_id = Some n \<and> node_class n \<noteq> SweepNode \<longrightarrow>
        run_sweep set_order slv j sweep_node_id initial_state
          = (Inl (NotASweepNode sweep_node_id (class_name (node_class n))), []) \<and>
        exception_class (NotASweepNode sweep_node_id (class_name (node_class n))) = C_TypeError)"
  by (simp add: run_sweep_def)

theorem run_sweep_lookup_errors_witness:
  "run_sweep (\<lambda>xs. xs) DAGSolver sweep_json ''missing'' None = (Inl (SweepNodeNotFound ''missing''), []) \<and>
   run_sweep (\<lambda>xs. xs) DAGSolver sweep_json ''f'' None = (Inl (NotASweepNode ''f'' ''FormulaNode''), [])"
proof -
  have a: "map_of sweep_json_nodes ''missing'' = None" by (simp add: sweep_json_nodes_def)
  have b: "map_of sweep_json_nodes ''f'' = Some (snd (hd sweep_json_nodes))
           \<and> node_class (snd (hd sweep_json_nodes)) \<noteq> SweepNode"
    by (simp add: sweep_json_nodes_def)
  have c: "class_name (node_class (snd (hd sweep_json_nodes))) = ''FormulaNode''"
    by (simp add: sweep_json_nodes_def)
  show ?thesis
    using run_sweep_lookup_errors[of sweep_json sweep_json_nodes "[(''f'', ''sw'')]" "''missing''"
        "\<lambda>xs. xs" DAGSolver None]
      run_sweep_lookup_errors[of sweep_json sweep_json_nodes "[(''f'', ''sw'')]" "''f''"
        "\<lambda>xs. xs" DAGSolver None]
      parse_sweep_json a b c
    by metis
qed




section \<open>The sweep\<close>










section \<open>The feedback pair of the tests\<close>

lemma is_set_order_remdups: "is_set_order remdups"
  by (simp add: is_set_order_def)

lemma is_set_order_Nil: "is_set_order so \<Longrightarrow> so [] = []"
  by (metis is_set_order_def set_empty)

lemma is_set_order_pair:
  assumes "is_set_order so" "a \<noteq> b"
  shows "so [a, b] = [a, b] \<or> so [a, b] = [b, a]"
proof -
  have d: "distinct (so [a, b])" and s: "set (so [a, b]) = {a, b}"
    using assms(1) by (simp_all add: is_set_order_def)
  have "length (so [a, b]) = card {a, b}" using d s by (metis distinct_card)
  then have l: "length (so [a, b]) = 2" using assms(2) by simp
  then obtain p q where pq: "so [a, b] = [p, q]"
    by (cases "so [a, b]"; cases "tl (so [a, b])") auto
  then show ?thesis using d s by (auto simp: doubleton_eq_iff)
qed

lemma xy_graph:
  "build_graph (map fst xy_nodes) xy_edges
   = \<lparr>g_nodes = [''X'', ''Y''], g_edges = [(''X'', ''Y''), (''Y'', ''X'')]\<rparr>"
  by (simp add: xy_nodes_def xy_edges_def build_graph_def add_edges_from_def
      add_nodes_from_def add_node_def add_edge_def empty_graph_def Let_def)

lemma xy_cycles: "simple_cycle_nodes (build_graph (map fst xy_nodes) xy_edges) = [''X'', ''Y'']"
  unfolding xy_graph simple_cycle_nodes_def by code_simp

lemma kahns_sort_empty: "kahns_sort (build_graph [] []) = []"
  by (simp add: kahns_sort_def build_graph_def add_edges_from_def add_nodes_from_def
      empty_graph_def in_degree_init_def edges_view_def)

lemma xy_pass_XY:
  "run_nodes xy_nodes [''X'', ''Y''] ([(''x_val'', x), (''y_val'', y)], lg)
   = (([(''x_val'', 0.5 * y + 1), (''y_val'', 0.3 * (0.5 * y + 1) + 2)], lg @ [''X'', ''Y'']), None)"
  by (simp add: xy_nodes_def formula_node_def compute_def formula_compute_def expression_def
      eval_float_def build_namespace_def SAFE_BUILTINS_def to_dict_def state_set_def
      output_name_def Let_def)

lemma xy_pass_YX:
  "run_nodes xy_nodes [''Y'', ''X''] ([(''x_val'', x), (''y_val'', y)], lg)
   = (([(''x_val'', 0.5 * (0.3 * x + 2) + 1), (''y_val'', 0.3 * x + 2)], lg @ [''Y'', ''X'']), None)"
  by (simp add: xy_nodes_def formula_node_def compute_def formula_compute_def expression_def
      eval_float_def build_namespace_def SAFE_BUILTINS_def to_dict_def state_set_def
      output_name_def Let_def)

lemma xy_delta:
  "delta [(''x_val'', x'), (''y_val'', y')] [(''x_val'', x), (''y_val'', y)]
   = Fin (max \<bar>x' - x\<bar> \<bar>y' - y\<bar>)"
  by (simp add: delta_def delta_step_def Let_def max_def)

lemma xy_iterate_XY:
  assumes "convergence_threshold slv = 0.001"
  shows "iterate_loop slv xy_nodes [''X'', ''Y''] (Suc (Suc (Suc (Suc (Suc (Suc k)))))) None
           ([(''x_val'', 0), (''y_val'', 0)], [])
         = (([(''x_val'', 2.3528384375), (''y_val'', 2.70585153125)],
             [''X'', ''Y'', ''X'', ''Y'', ''X'', ''Y'', ''X'', ''Y'', ''X'', ''Y'', ''X'', ''Y'']), None)"
  by (simp add: assms xy_pass_XY xy_delta snapshot_def Let_def del: run_nodes.simps)

lemma xy_iterate_YX:
  assumes "convergence_threshold slv = 0.001"
  shows "iterate_loop slv xy_nodes [''Y'', ''X''] (Suc (Suc (Suc (Suc (Suc (Suc k)))))) None
           ([(''x_val'', 0), (''y_val'', 0)], [])
         = (([(''x_val'', 2.352914375), (''y_val'', 2.70582875)],
             [''Y'', ''X'', ''Y'', ''X'', ''Y'', ''X'', ''Y'', ''X'', ''Y'', ''X'', ''Y'', ''X'']), None)"
  by (simp add: assms xy_pass_YX xy_delta snapshot_def Let_def del: run_nodes.simps)

lemma subgraph_copy_Nil:
  assumes "is_set_order so"
  shows "subgraph_copy so g [] = build_graph [] []"
  by (simp add: subgraph_copy_def is_set_order_Nil[OF assms] build_graph_def)

lemma xy_cycle_order:
  assumes "ids = [''X'', ''Y''] \<or> ids = [''Y'', ''X'']"
  shows "resolve_cycle_order (build_graph (map fst xy_nodes) xy_edges) ids = ids"
  using assms unfolding xy_graph
  by (auto simp: resolve_cycle_order_def sub_in_degree_def predecessors_def)

lemma xy_solve:
  assumes so: "is_set_order so" and ids: "so [''X'', ''Y''] = ids"
  shows "solve so slv xy_nodes xy_edges st
         = cycle_phase slv xy_nodes ids (st, [])"
proof -
  have c: "ids = [''X'', ''Y''] \<or> ids = [''Y'', ''X'']"
    using is_set_order_pair[OF so, of "''X''" "''Y''"] ids by simp
  have f: "filter (\<lambda>n. n \<notin> set ids) [''X'', ''Y''] = []"
    using c by auto
  have g: "g_nodes (build_graph (map fst xy_nodes) xy_edges) = [''X'', ''Y'']"
    by (simp add: xy_graph)
  have ph: "and_then (and_then ((st, []), None) (cycle_phase slv xy_nodes ids)) (run_nodes xy_nodes [])
        = cycle_phase slv xy_nodes ids (st, [])"
    by (cases "cycle_phase slv xy_nodes ids (st, [])"; cases "snd (cycle_phase slv xy_nodes ids (st, []))")
       (auto simp: and_then_def)
  show ?thesis
    unfolding solve_def Let_def xy_cycles ids g f subgraph_copy_Nil[OF so] kahns_sort_empty
      xy_cycle_order[OF c]
    using ph by simp
qed

text \<open>
  Claim C4. Two FormulaNodes in mutual feedback, \<open>x = 0.5 y + 1\<close> and
  \<open>y = 0.3 x + 2\<close>, started from \<open>x = y = 0\<close>: whichever of the two Python visits
  first, the solver with threshold 0.001 and at least six iterations allowed returns
  after six passes (twelve node executions) with \<open>x\<close> within 0.01 of 2.3529 and
  \<open>y\<close> within 0.01 of 2.7059.
\<close>

theorem feedback_pair_converges:
  "is_set_order so \<and> convergence_threshold slv = 0.001 \<and> 6 \<le> max_iterations slv \<longrightarrow>
   (\<exists>st' order.
      solve so slv xy_nodes xy_edges [(''x_val'', 0), (''y_val'', 0)] = ((st', order), None) \<and>
      \<bar>state_get st' ''x_val'' 0 - 2.3529\<bar> < 0.01 \<and>
      \<bar>state_get st' ''y_val'' 0 - 2.7059\<bar> < 0.01 \<and>
      2 < length order \<and> length order = 12)"
proof (intro impI)
  assume h: "is_set_order so \<and> convergence_threshold slv = 0.001 \<and> 6 \<le> max_iterations slv"
  then have so: "is_set_order so" and thr: "convergence_threshold slv = 0.001" by simp_all
  obtain k where k: "nat (max_iterations slv) = Suc (Suc (Suc (Suc (Suc (Suc k)))))"
  proof -
    have "6 \<le> max_iterations slv" using h by blast
    then have "6 \<le> nat (max_iterations slv)" by linarith
    then have "nat (max_iterations slv) = Suc (Suc (Suc (Suc (Suc (Suc (nat (max_iterations slv) - 6))))))"
      by simp
    then show ?thesis using that by blast
  qed
  let ?st0 = "[(''x_val'', 0::real), (''y_val'', 0)]"
  consider (xy) "so [''X'', ''Y''] = [''X'', ''Y'']" | (yx) "so [''X'', ''Y''] = [''Y'', ''X'']"
    using is_set_order_pair[OF so, of "''X''" "''Y''"] by auto
  then show "\<exists>st' order.
      solve so slv xy_nodes xy_edges ?st0 = ((st', order), None) \<and>
      \<bar>state_get st' ''x_val'' 0 - 2.3529\<bar> < 0.01 \<and>
      \<bar>state_get st' ''y_val'' 0 - 2.7059\<bar> < 0.01 \<and>
      2 < length order \<and> length order = 12"
  proof cases
    case xy
    have "solve so slv xy_nodes xy_edges ?st0
          = (([(''x_val'', 2.3528384375), (''y_val'', 2.70585153125)],
             [''X'', ''Y'', ''X'', ''Y'', ''X'', ''Y'', ''X'', ''Y'', ''X'', ''Y'', ''X'', ''Y'']), None)"
      unfolding xy_solve[OF so xy] cycle_phase_def iterate_until_converged_def k fst_conv
        xy_iterate_XY[OF thr]
      by simp
    then show ?thesis by (simp add: state_get_def)
  next
    case yx
    have "solve so slv xy_nodes xy_edges ?st0
          = (([(''x_val'', 2.352914375), (''y_val'', 2.70582875)],
             [''Y'', ''X'', ''Y'', ''X'', ''Y'', ''X'', ''Y'', ''X'', ''Y'', ''X'', ''Y'', ''X'']), None)"
      unfolding xy_solve[OF so yx] cycle_phase_def iterate_until_converged_def k fst_conv
        xy_iterate_YX[OF thr]
      by simp
    then show ?thesis by (simp add: state_get_def)
  qed
qed

theorem feedback_pair_converges_witness:
  "\<exists>st' order.
      solve remdups DAGSolver xy_nodes xy_edges [(''x_val'', 0), (''y_val'', 0)] = ((st', order), None) \<and>
      \<bar>state_get st' ''x_val'' 0 - 2.3529\<bar> < 0.01 \<and>
      \<bar>state_get st' ''y_val'' 0 - 2.7059\<bar> < 0.01 \<and>
      2 < length order"
proof -
  have "convergence_threshold DAGSolver = 0.001 \<and> 6 \<le> max_iterations DAGSolver"
    by (simp add: DAGSolver_def)
  with feedback_pair_converges[of remdups DAGSolver] is_set_order_remdups
  show ?thesis by blast
qed

section \<open>Graphs with cycles\<close>

lemma subgraph_copy_build:
  "subgraph_copy so g ids
   = build_graph (so (filter (\<lambda>n. n \<in> set ids) (g_nodes g)))
       (concat (map (\<lambda>u. map (Pair u) (so (filter (\<lambda>v. v \<in> set ids) (successors g u))))
          (so (filter (\<lambda>n. n \<in> set ids) (g_nodes g)))))"
  by (simp add: subgraph_copy_def build_graph_def Let_def)

lemma subgraph_copy_props:
  assumes so: "is_set_order so" and wf: "wf_graph g"
  shows "wf_graph (subgraph_copy so g ids)"
    and "set (g_nodes (subgraph_copy so g ids)) = set ids \<inter> set (g_nodes g)"
    and "set (g_edges (subgraph_copy so g ids))
         = {e \<in> set (g_edges g). fst e \<in> set ids \<and> snd e \<in> set ids}"
proof -
  let ?ns = "so (filter (\<lambda>n. n \<in> set ids) (g_nodes g))"
  let ?es = "concat (map (\<lambda>u. map (Pair u) (so (filter (\<lambda>v. v \<in> set ids) (successors g u)))) ?ns)"
  have sso: "set (so xs) = set xs" for xs using so by (simp add: is_set_order_def)
  have ns: "set ?ns = set ids \<inter> set (g_nodes g)" by (auto simp: sso)
  have es: "set ?es = {e \<in> set (g_edges g). fst e \<in> set ids \<and> snd e \<in> set ids}"
  proof (rule set_eqI)
    fix e :: "'a \<times> 'a"
    obtain u v where e: "e = (u, v)" by (cases e)
    have "u \<in> set (g_nodes g)" if "(u, v) \<in> set (g_edges g)"
      using that wf unfolding wf_graph_def by force
    then show "e \<in> set ?es \<longleftrightarrow> e \<in> {e \<in> set (g_edges g). fst e \<in> set ids \<and> snd e \<in> set ids}"
      unfolding e by (auto simp: sso successors_set)
  qed
  show "wf_graph (subgraph_copy so g ids)"
    unfolding subgraph_copy_build by (rule wf_build_graph)
  show "set (g_edges (subgraph_copy so g ids))
         = {e \<in> set (g_edges g). fst e \<in> set ids \<and> snd e \<in> set ids}"
    unfolding subgraph_copy_build build_graph_props es ..
  have "fst ` set ?es \<subseteq> set ids \<inter> set (g_nodes g)" "snd ` set ?es \<subseteq> set ids \<inter> set (g_nodes g)"
    using wf unfolding es wf_graph_def by auto
  then show "set (g_nodes (subgraph_copy so g ids)) = set ids \<inter> set (g_nodes g)"
    unfolding subgraph_copy_build build_graph_props ns by blast
qed

lemma subgraph_copy_acyclic:
  assumes so: "is_set_order so" and wf: "wf_graph g"
    and dis: "set ids \<inter> set (simple_cycle_nodes g) = {}"
  shows "acyclic (set (g_edges (subgraph_copy so g ids)))"
  unfolding acyclic_def
proof (intro allI notI)
  let ?E' = "set (g_edges (subgraph_copy so g ids))"
  fix x assume xx: "(x, x) \<in> ?E'\<^sup>+"
  have sub: "?E' \<subseteq> set (g_edges g)"
    unfolding subgraph_copy_props(3)[OF so wf] by blast
  have "x \<in> Domain (?E'\<^sup>+)" using xx by blast
  then have "x \<in> Domain ?E'" by (simp only: trancl_domain)
  then have "x \<in> fst ` ?E'" by (simp only: Domain_fst)
  then have xi: "x \<in> set ids" and xv: "x \<in> set (g_nodes g)"
    using wf unfolding subgraph_copy_props(3)[OF so wf] wf_graph_def by auto
  have "(x, x) \<in> (set (g_edges g))\<^sup>+" using xx sub by (meson trancl_mono)
  then have "x \<in> set (simple_cycle_nodes g)" using xv by (simp add: simple_cycle_nodes_def)
  then show False using xi dis by blast
qed

lemma run_nodes_store_log:
  "fst (fst (run_nodes nodes ids (st, lg))) = fst (fst (run_nodes nodes ids (st, [])))
   \<and> snd (run_nodes nodes ids (st, lg)) = snd (run_nodes nodes ids (st, []))"
proof (induction ids arbitrary: st lg)
  case Nil
  then show ?case by simp
next
  case (Cons nid ids)
  show ?case
  proof (cases "map_of nodes nid")
    case None
    then show ?thesis using Cons.IH by simp
  next
    case (Some n)
    obtain st'' exc where c: "compute n st = (st'', exc)" by (cases "compute n st")
    show ?thesis
    proof (cases exc)
      case None
      then show ?thesis
        using Some c Cons.IH[of st'' "lg @ [nid]"] Cons.IH[of st'' "[nid]"] by simp
    next
      case (Some e)
      then show ?thesis using \<open>map_of nodes nid = Some n\<close> c by simp
    qed
  qed
qed

lemma iterate_loop_log:
  "iterate_loop slv nodes order k snap sl = ((st', lg), None) \<Longrightarrow>
   \<exists>m \<le> k. lg = snd sl @ concat (replicate m (filter (\<lambda>n. n \<in> fst ` set nodes) order))"
proof (induction k arbitrary: snap sl)
  case 0
  then show ?case by (cases snap) auto
next
  case (Suc k)
  let ?known = "filter (\<lambda>n. n \<in> fst ` set nodes) order"
  obtain sl1 exc where r: "run_nodes nodes order sl = (sl1, exc)" by (cases "run_nodes nodes order sl")
  show ?case
  proof (cases exc)
    case (Some e)
    then show ?thesis using Suc.prems r by (simp add: Let_def)
  next
    case None
    then have "run_nodes nodes order sl = ((fst sl1, snd sl1), None)" using r by simp
    then have l1: "snd sl1 = snd sl @ ?known" by (rule run_nodes_log)
    show ?thesis
    proof (cases "float_less (delta (fst sl1) (snapshot (fst sl))) (convergence_threshold slv)")
      case True
      then have "((st', lg), None) = (sl1, None)" using Suc.prems r None by (simp add: Let_def)
      then have "lg = snd sl @ concat (replicate 1 ?known)" using l1 by auto
      then show ?thesis by (intro exI[of _ 1]) simp
    next
      case False
      then have "iterate_loop slv nodes order k (Some (snapshot (fst sl))) sl1 = ((st', lg), None)"
        using Suc.prems r None by (simp add: Let_def)
      from Suc.IH[OF this] obtain m where m: "m \<le> k" "lg = snd sl1 @ concat (replicate m ?known)"
        by blast
      then have "lg = snd sl @ concat (replicate (Suc m) ?known)" using l1 by simp
      then show ?thesis using m(1) by (intro exI[of _ "Suc m"]) simp
    qed
  qed
qed

lemma run_nodes_known:
  "run_nodes nodes (filter (\<lambda>n. n \<in> fst ` set nodes) ids) sl = run_nodes nodes ids sl"
proof (induction ids arbitrary: sl)
  case Nil
  then show ?case by simp
next
  case (Cons nid ids)
  show ?case
  proof (cases "map_of nodes nid")
    case None
    then have "nid \<notin> fst ` set nodes" by (simp add: map_of_eq_None_iff)
    then show ?thesis using None Cons.IH by simp
  next
    case (Some n)
    then have "nid \<in> fst ` set nodes" by (metis map_of_eq_None_iff option.distinct(1))
    then show ?thesis using Some Cons.IH by (simp split: prod.splits option.splits)
  qed
qed

lemma and_then_None:
  "and_then r f = (sl', None) \<Longrightarrow> \<exists>sl. r = (sl, None) \<and> f sl = (sl', None)"
  by (cases r; cases "snd r") (auto simp: and_then_def)

lemma cycle_phase_None:
  "cycle_phase slv nodes co sl = (sl', None) \<Longrightarrow>
   \<exists>st2 ce. iterate_until_converged slv nodes co (fst sl) = ((st2, ce), None) \<and>
            sl' = (st2, snd sl @ ce)"
  by (cases "iterate_until_converged slv nodes co (fst sl)") (auto simp: cycle_phase_def)

lemma simple_cycle_nodes_set:
  "wf_graph g \<Longrightarrow> set (simple_cycle_nodes g) = {v. (v, v) \<in> (set (g_edges g))\<^sup>+}"
proof (rule set_eqI)
  fix x
  assume wf: "wf_graph g"
  have "x \<in> set (g_nodes g)" if xx: "(x, x) \<in> (set (g_edges g))\<^sup>+"
  proof -
    have "x \<in> Domain ((set (g_edges g))\<^sup>+)" using xx by blast
    then have "x \<in> Domain (set (g_edges g))" by (simp only: trancl_domain)
    then have "x \<in> fst ` set (g_edges g)" by (simp only: Domain_fst)
    then show ?thesis using wf unfolding wf_graph_def by blast
  qed
  then show "x \<in> set (simple_cycle_nodes g) \<longleftrightarrow> x \<in> {v. (v, v) \<in> (set (g_edges g))\<^sup>+}"
    by (auto simp: simple_cycle_nodes_def)
qed

lemma depends_on_cycle_iff:
  "depends_on_cycle g ids n \<longleftrightarrow> (\<exists>p. (p, n) \<in> set (g_edges g) \<and> p \<in> set ids)"
  by (auto simp: depends_on_cycle_def list_ex_iff predecessors_set)

lemma solve_mixed_decomposition:
  assumes so: "is_set_order so"
    and cyc: "simple_cycle_nodes (build_graph (map fst nodes) edges) \<noteq> []"
    and ret: "solve so slv nodes edges st = ((st', order), None)"
  shows "\<exists>pre_exec cyc_exec post_exec st1 st2 m.
     order = pre_exec @ cyc_exec @ post_exec \<and>
     distinct pre_exec \<and> set pre_exec = pre_cycle_set nodes edges \<and>
     distinct post_exec \<and> set post_exec = post_cycle_set nodes edges \<and>
     (\<forall>u v. (u, v) \<in> set edges \<and> u \<in> set pre_exec \<and> v \<in> set pre_exec \<longrightarrow> precedes u v pre_exec) \<and>
     (\<forall>u v. (u, v) \<in> set edges \<and> u \<in> set post_exec \<and> v \<in> set post_exec \<longrightarrow> precedes u v post_exec) \<and>
     run_nodes nodes pre_exec (st, []) = ((st1, pre_exec), None) \<and>
     iterate_until_converged slv nodes
        (resolve_cycle_order (build_graph (map fst nodes) edges)
           (so (simple_cycle_nodes (build_graph (map fst nodes) edges)))) st1
       = ((st2, cyc_exec), None) \<and>
     run_nodes nodes post_exec (st2, pre_exec @ cyc_exec) = ((st', order), None) \<and>
     m \<le> nat (max_iterations slv) \<and>
     cyc_exec = concat (replicate m (filter (\<lambda>n. n \<in> fst ` set nodes)
        (resolve_cycle_order (build_graph (map fst nodes) edges)
           (so (simple_cycle_nodes (build_graph (map fst nodes) edges)))))) \<and>
     set cyc_exec \<subseteq> {n \<in> fst ` set nodes. (n, n) \<in> (set edges)\<^sup>+}"
proof -
  define g where "g = build_graph (map fst nodes) edges"
  define ids where "ids = so (simple_cycle_nodes g)"
  define acyc where "acyc = filter (\<lambda>n. n \<notin> set ids) (g_nodes g)"
  define sub where "sub = subgraph_copy so g acyc"
  define order0 where "order0 = kahns_sort sub"
  define pre where "pre = filter (\<lambda>nid. \<not> depends_on_cycle g ids nid) order0"
  define post where "post = filter (\<lambda>nid. depends_on_cycle g ids nid) order0"
  define co where "co = resolve_cycle_order g ids"
  define known where "known = (\<lambda>n. n \<in> fst ` set nodes)"
  define C where "C = {v. (v, v) \<in> (set edges)\<^sup>+}"
  have wf: "wf_graph g" unfolding g_def by (rule wf_build_graph)
  have E: "set (g_edges g) = set edges" unfolding g_def by (rule build_graph_props)
  have V: "set (g_nodes g) = fst ` set nodes \<union> fst ` set edges \<union> snd ` set edges"
    unfolding g_def by (simp add: build_graph_props)
  have sids: "set ids = C"
    using so simple_cycle_nodes_set[OF wf] unfolding ids_def C_def E by (simp add: is_set_order_def)
  have sacyc: "set acyc = set (g_nodes g) - C" unfolding acyc_def sids by auto
  have dis: "set acyc \<inter> set (simple_cycle_nodes g) = {}"
    using simple_cycle_nodes_set[OF wf] unfolding sacyc C_def E by blast
  have wfs: "wf_graph sub" unfolding sub_def by (rule subgraph_copy_props(1)[OF so wf])
  have Vs: "set (g_nodes sub) = set (g_nodes g) - C"
    unfolding sub_def subgraph_copy_props(2)[OF so wf] sacyc by blast
  have Es: "set (g_edges sub) = {e \<in> set edges. fst e \<in> set acyc \<and> snd e \<in> set acyc}"
    unfolding sub_def subgraph_copy_props(3)[OF so wf] E ..
  have acs: "acyclic (set (g_edges sub))"
    unfolding sub_def by (rule subgraph_copy_acyclic[OF so wf dis])
  have d0: "distinct order0" unfolding order0_def by (rule kahns_sort_sound(1)[OF wfs])
  have s0: "set order0 = set (g_nodes g) - C"
    unfolding order0_def kahns_sort_complete[OF wfs acs] Vs ..
  have p0: "precedes u v order0" if "(u, v) \<in> set edges" "u \<in> set order0" "v \<in> set order0" for u v
  proof -
    have "(u, v) \<in> set (g_edges sub)" using that unfolding Es s0 sacyc by simp
    then show ?thesis using that(3) unfolding order0_def by (rule kahns_sort_sound(3)[OF wfs])
  qed
  have dep: "depends_on_cycle g ids n \<longleftrightarrow> (\<exists>p. (p, n) \<in> set edges \<and> p \<in> C)" for n
    unfolding depends_on_cycle_iff E sids ..
  have s: "solve so slv nodes edges st
           = and_then (and_then (run_nodes nodes pre (st, [])) (cycle_phase slv nodes co))
                      (run_nodes nodes post)"
    using cyc unfolding solve_def Let_def g_def[symmetric] ids_def[symmetric] acyc_def[symmetric]
      sub_def[symmetric] order0_def[symmetric] pre_def[symmetric] post_def[symmetric]
      co_def[symmetric]
    by simp
  obtain sl2 where a2: "and_then (run_nodes nodes pre (st, [])) (cycle_phase slv nodes co) = (sl2, None)"
    and r3: "run_nodes nodes post sl2 = ((st', order), None)"
    using and_then_None[OF ret[unfolded s]] by blast
  obtain sl1 where r1: "run_nodes nodes pre (st, []) = (sl1, None)"
    and c2: "cycle_phase slv nodes co sl1 = (sl2, None)"
    using and_then_None[OF a2] by blast
  obtain st2 ce where it: "iterate_until_converged slv nodes co (fst sl1) = ((st2, ce), None)"
    and sl2: "sl2 = (st2, snd sl1 @ ce)"
    using cycle_phase_None[OF c2] by blast
  define pre_exec where "pre_exec = filter known pre"
  define post_exec where "post_exec = filter known post"
  have "run_nodes nodes pre (st, []) = ((fst sl1, snd sl1), None)" using r1 by simp
  then have l1: "snd sl1 = pre_exec"
    using run_nodes_log[of nodes pre "(st, [])" "fst sl1" "snd sl1"]
    unfolding pre_exec_def known_def by simp
  have l3: "order = (pre_exec @ ce) @ post_exec"
    using run_nodes_log[OF r3] unfolding sl2 l1 post_exec_def known_def by simp
  have e1: "run_nodes nodes pre_exec (st, []) = run_nodes nodes pre (st, [])"
    unfolding pre_exec_def known_def by (rule run_nodes_known)
  have "sl1 = (fst sl1, pre_exec)" using l1 by (simp add: prod_eq_iff)
  then have R1: "run_nodes nodes pre_exec (st, []) = ((fst sl1, pre_exec), None)"
    using e1 r1 by simp
  have e3: "run_nodes nodes post_exec sl2 = run_nodes nodes post sl2"
    unfolding post_exec_def known_def by (rule run_nodes_known)
  have R3: "run_nodes nodes post_exec (st2, pre_exec @ ce) = ((st', order), None)"
    using e3 r3 unfolding sl2 l1 by simp
  obtain m where m: "m \<le> nat (max_iterations slv)" "ce = concat (replicate m (filter known co))"
    using iterate_loop_log[OF it[unfolded iterate_until_converged_def]]
    unfolding known_def by auto
  have sco: "set co = C" unfolding co_def resolve_cycle_order_def sids[symmetric] by simp
  have sce: "set ce \<subseteq> {n \<in> fst ` set nodes. (n, n) \<in> (set edges)\<^sup>+}"
    unfolding m(2) using sco unfolding known_def C_def by auto
  have kV: "fst ` set nodes \<subseteq> set (g_nodes g)" unfolding V by blast
  have spre: "set pre_exec = pre_cycle_set nodes edges"
    unfolding pre_exec_def pre_def known_def pre_cycle_set_def using kV
    by (auto simp: s0 dep C_def)
  have spost: "set post_exec = post_cycle_set nodes edges"
    unfolding post_exec_def post_def known_def post_cycle_set_def using kV
    by (auto simp: s0 dep C_def)
  have dpre: "distinct pre_exec" and dpost: "distinct post_exec"
    unfolding pre_exec_def post_exec_def pre_def post_def using d0 by simp_all
  have tpre: "precedes u v pre_exec"
    if "(u, v) \<in> set edges \<and> u \<in> set pre_exec \<and> v \<in> set pre_exec" for u v
  proof -
    have m: "u \<in> set order0" "v \<in> set order0" "\<not> depends_on_cycle g ids u"
      "\<not> depends_on_cycle g ids v" "known u" "known v"
      using that unfolding pre_exec_def pre_def by auto
    have "precedes u v order0" using p0 that m by blast
    then show ?thesis unfolding pre_exec_def pre_def using m
      by (intro precedes_filter) auto
  qed
  have tpost: "precedes u v post_exec"
    if "(u, v) \<in> set edges \<and> u \<in> set post_exec \<and> v \<in> set post_exec" for u v
  proof -
    have m: "u \<in> set order0" "v \<in> set order0" "depends_on_cycle g ids u"
      "depends_on_cycle g ids v" "known u" "known v"
      using that unfolding post_exec_def post_def by auto
    have "precedes u v order0" using p0 that m by blast
    then show ?thesis unfolding post_exec_def post_def using m
      by (intro precedes_filter) auto
  qed
  show ?thesis
    unfolding g_def[symmetric] ids_def[symmetric] co_def[symmetric] known_def[symmetric]
    apply (rule exI[of _ pre_exec], rule exI[of _ ce], rule exI[of _ post_exec])
    apply (rule exI[of _ "fst sl1"], rule exI[of _ st2], rule exI[of _ m])
    using l3 dpre spre dpost spost tpre tpost R1 it R3 m sce
    by (simp add: known_def)
qed

lemma mixed_graph:
  "build_graph (map fst mixed_nodes) mixed_edges
   = \<lparr>g_nodes = [''P'', ''X'', ''Y'', ''Q''],
      g_edges = [(''P'', ''X''), (''X'', ''Y''), (''Y'', ''X''), (''X'', ''Q'')]\<rparr>"
  by (simp add: mixed_nodes_def mixed_edges_def build_graph_def add_edges_from_def
      add_nodes_from_def add_node_def add_edge_def empty_graph_def Let_def)

lemma mixed_cycles:
  "simple_cycle_nodes (build_graph (map fst mixed_nodes) mixed_edges) = [''X'', ''Y'']"
  unfolding mixed_graph simple_cycle_nodes_def by code_simp

lemma mixed_subgraph:
  "subgraph_copy remdups \<lparr>g_nodes = [''P'', ''X'', ''Y'', ''Q''],
      g_edges = [(''P'', ''X''), (''X'', ''Y''), (''Y'', ''X''), (''X'', ''Q'')]\<rparr> [''P'', ''Q'']
   = \<lparr>g_nodes = [''P'', ''Q''], g_edges = []\<rparr>"
  by (simp add: subgraph_copy_def successors_def add_edges_from_def
      add_nodes_from_def add_node_def empty_graph_def Let_def)

lemma mixed_kahn: "kahns_sort \<lparr>g_nodes = [''P'', ''Q''], g_edges = []\<rparr> = [''P'', ''Q'']"
  by (simp add: kahns_sort_def in_degree_init_def edges_view_def successors_def relax_def
      relax_step_def Let_def)

lemma mixed_phases:
  "solve remdups slv mixed_nodes mixed_edges st
   = and_then (and_then (run_nodes mixed_nodes [''P''] (st, []))
                 (cycle_phase slv mixed_nodes [''X'', ''Y'']))
              (run_nodes mixed_nodes [''Q''])"
  unfolding solve_def Let_def mixed_cycles
  unfolding mixed_graph
  by (simp add: mixed_subgraph mixed_kahn depends_on_cycle_def predecessors_def
      resolve_cycle_order_def sub_in_degree_def)

lemmas mixed_eval_defs =
  mixed_nodes_def formula_node_def compute_def formula_compute_def expression_def
  eval_float_def build_namespace_def SAFE_BUILTINS_def to_dict_def state_set_def
  output_name_def Let_def

lemma mixed_pre:
  "run_nodes mixed_nodes [''P''] ([(''x_val'', 0), (''y_val'', 0)], [])
   = (([(''x_val'', 0), (''y_val'', 0), (''p_out'', 1)], [''P'']), None)"
  by (simp add: mixed_eval_defs)

lemma mixed_pass:
  "run_nodes mixed_nodes [''X'', ''Y''] ([(''x_val'', x), (''y_val'', y), (''p_out'', p)], lg)
   = (([(''x_val'', 0.5 * y + 1), (''y_val'', 0.3 * (0.5 * y + 1) + 2), (''p_out'', p)],
       lg @ [''X'', ''Y'']), None)"
  by (simp add: mixed_eval_defs)

lemma mixed_delta:
  "delta [(''x_val'', x'), (''y_val'', y'), (''p_out'', p)] [(''x_val'', x), (''y_val'', y), (''p_out'', p)]
   = Fin (max \<bar>x' - x\<bar> \<bar>y' - y\<bar>)"
  by (simp add: delta_def delta_step_def Let_def max_def)

lemma mixed_iterate:
  "iterate_loop DAGSolver mixed_nodes [''X'', ''Y''] (Suc (Suc (Suc (Suc (Suc (Suc k)))))) None
           ([(''x_val'', 0), (''y_val'', 0), (''p_out'', 1)], [])
         = (([(''x_val'', 2.3528384375), (''y_val'', 2.70585153125), (''p_out'', 1)],
             [''X'', ''Y'', ''X'', ''Y'', ''X'', ''Y'', ''X'', ''Y'', ''X'', ''Y'', ''X'', ''Y'']), None)"
  by (simp add: DAGSolver_def mixed_pass mixed_delta snapshot_def Let_def del: run_nodes.simps)

lemma mixed_post:
  "run_nodes mixed_nodes [''Q''] ([(''x_val'', x), (''y_val'', y), (''p_out'', p)], lg)
   = (([(''x_val'', x), (''y_val'', y), (''p_out'', p), (''q_out'', x + 1)], lg @ [''Q'']), None)"
  by (simp add: mixed_eval_defs)

lemma mixed_solve:
  "solve remdups DAGSolver mixed_nodes mixed_edges [(''x_val'', 0), (''y_val'', 0)]
   = (([(''x_val'', 2.3528384375), (''y_val'', 2.70585153125), (''p_out'', 1),
        (''q_out'', 3.3528384375)],
       [''P'', ''X'', ''Y'', ''X'', ''Y'', ''X'', ''Y'', ''X'', ''Y'', ''X'', ''Y'', ''X'', ''Y'', ''Q'']),
      None)"
proof -
  have n: "nat (max_iterations DAGSolver) = Suc (Suc (Suc (Suc (Suc (Suc 94)))))"
    by (simp add: DAGSolver_def)
  have c: "cycle_phase DAGSolver mixed_nodes [''X'', ''Y'']
             ([(''x_val'', 0), (''y_val'', 0), (''p_out'', 1)], [''P''])
           = (([(''x_val'', 2.3528384375), (''y_val'', 2.70585153125), (''p_out'', 1)],
               [''P'', ''X'', ''Y'', ''X'', ''Y'', ''X'', ''Y'', ''X'', ''Y'', ''X'', ''Y'', ''X'', ''Y'']), None)"
    unfolding cycle_phase_def iterate_until_converged_def n fst_conv mixed_iterate by simp
  show ?thesis
    unfolding mixed_phases mixed_pre and_then_def
    by (simp add: c mixed_post del: run_nodes.simps)
qed

text \<open>
  Claim C2. When the graph has a cycle and \<^verbatim>\<open>solve\<close> returns, the execution order is
  the executed pre-cycle nodes, then the executions of the cyclic block, then the executed
  post-cycle nodes. The pre-cycle nodes are the known nodes outside every cycle with no
  direct predecessor on a cycle, the post-cycle nodes those with such a predecessor; each
  of the two lists holds its nodes once, the source of an edge before its target. The
  block is a number of passes, at most the iteration budget, over the known cycle nodes in
  the order of \<^verbatim>\<open>_resolve_cycle_order\<close>.
\<close>

theorem solve_cyclic_phases:
  "is_set_order so \<and>
   simple_cycle_nodes (build_graph (map fst nodes) edges) \<noteq> [] \<and>
   solve so slv nodes edges st = ((st', order), None) \<longrightarrow>
   (\<exists>pre_exec cyc_exec post_exec st1 st2 m.
     order = pre_exec @ cyc_exec @ post_exec \<and>
     distinct pre_exec \<and> set pre_exec = pre_cycle_set nodes edges \<and>
     distinct post_exec \<and> set post_exec = post_cycle_set nodes edges \<and>
     (\<forall>u v. (u, v) \<in> set edges \<and> u \<in> set pre_exec \<and> v \<in> set pre_exec \<longrightarrow> precedes u v pre_exec) \<and>
     (\<forall>u v. (u, v) \<in> set edges \<and> u \<in> set post_exec \<and> v \<in> set post_exec \<longrightarrow> precedes u v post_exec) \<and>
     run_nodes nodes pre_exec (st, []) = ((st1, pre_exec), None) \<and>
     iterate_until_converged slv nodes
        (resolve_cycle_order (build_graph (map fst nodes) edges)
           (so (simple_cycle_nodes (build_graph (map fst nodes) edges)))) st1
       = ((st2, cyc_exec), None) \<and>
     run_nodes nodes post_exec (st2, pre_exec @ cyc_exec) = ((st', order), None) \<and>
     m \<le> nat (max_iterations slv) \<and>
     cyc_exec = concat (replicate m (filter (\<lambda>n. n \<in> fst ` set nodes)
        (resolve_cycle_order (build_graph (map fst nodes) edges)
           (so (simple_cycle_nodes (build_graph (map fst nodes) edges)))))) \<and>
     set cyc_exec \<subseteq> {n \<in> fst ` set nodes. (n, n) \<in> (set edges)\<^sup>+})"
proof (intro impI, elim conjE)
  assume a: "is_set_order so"
    and b: "simple_cycle_nodes (build_graph (map fst nodes) edges) \<noteq> []"
    and c: "solve so slv nodes edges st = ((st', order), None)"
  show "\<exists>pre_exec cyc_exec post_exec st1 st2 m.
     order = pre_exec @ cyc_exec @ post_exec \<and>
     distinct pre_exec \<and> set pre_exec = pre_cycle_set nodes edges \<and>
     distinct post_exec \<and> set post_exec = post_cycle_set nodes edges \<and>
     (\<forall>u v. (u, v) \<in> set edges \<and> u \<in> set pre_exec \<and> v \<in> set pre_exec \<longrightarrow> precedes u v pre_exec) \<and>
     (\<forall>u v. (u, v) \<in> set edges \<and> u \<in> set post_exec \<and> v \<in> set post_exec \<longrightarrow> precedes u v post_exec) \<and>
     run_nodes nodes pre_exec (st, []) = ((st1, pre_exec), None) \<and>
     iterate_until_converged slv nodes
        (resolve_cycle_order (build_graph (map fst nodes) edges)
           (so (simple_cycle_nodes (build_graph (map fst nodes) edges)))) st1
       = ((st2, cyc_exec), None) \<and>
     run_nodes nodes post_exec (st2, pre_exec @ cyc_exec) = ((st', order), None) \<and>
     m \<le> nat (max_iterations slv) \<and>
     cyc_exec = concat (replicate m (filter (\<lambda>n. n \<in> fst ` set nodes)
        (resolve_cycle_order (build_graph (map fst nodes) edges)
           (so (simple_cycle_nodes (build_graph (map fst nodes) edges)))))) \<and>
     set cyc_exec \<subseteq> {n \<in> fst ` set nodes. (n, n) \<in> (set edges)\<^sup>+}"
    by (rule solve_mixed_decomposition[OF a b c])
qed

lemma mixed_on_cycle: "(n, n) \<in> (set mixed_edges)\<^sup>+ \<longleftrightarrow> n \<in> {''X'', ''Y''}"
proof -
  have "set (simple_cycle_nodes (build_graph (map fst mixed_nodes) mixed_edges))
        = {v. (v, v) \<in> (set (g_edges (build_graph (map fst mixed_nodes) mixed_edges)))\<^sup>+}"
    by (rule simple_cycle_nodes_set[OF wf_build_graph])
  then have "{v. (v, v) \<in> (set mixed_edges)\<^sup>+} = set [''X'', ''Y'']"
    unfolding mixed_cycles build_graph_props by (rule sym)
  then have "n \<in> {v. (v, v) \<in> (set mixed_edges)\<^sup>+} \<longleftrightarrow> n \<in> set [''X'', ''Y'']"
    by (simp only:)
  then show ?thesis by (simp only: mem_Collect_eq list.set)
qed

lemma mixed_keys: "fst ` set mixed_nodes = {''P'', ''X'', ''Y'', ''Q''}"
  by (simp add: mixed_nodes_def)

lemma mixed_fed:
  "(\<exists>p. (p, n) \<in> set mixed_edges \<and> p \<in> {''X'', ''Y''}) \<longleftrightarrow> n \<in> {''X'', ''Y'', ''Q''}"
proof
  assume "\<exists>p. (p, n) \<in> set mixed_edges \<and> p \<in> {''X'', ''Y''}"
  then obtain p where "(p, n) \<in> set mixed_edges" by blast
  then show "n \<in> {''X'', ''Y'', ''Q''}" by (simp add: mixed_edges_def) blast
next
  assume "n \<in> {''X'', ''Y'', ''Q''}"
  then consider "n = ''X''" | "n = ''Y''" | "n = ''Q''" by blast
  then show "\<exists>p. (p, n) \<in> set mixed_edges \<and> p \<in> {''X'', ''Y''}"
  proof cases
    case 1
    then show ?thesis by (intro exI[of _ "''Y''"]) (simp add: mixed_edges_def)
  next
    case 2
    then show ?thesis by (intro exI[of _ "''X''"]) (simp add: mixed_edges_def)
  next
    case 3
    then show ?thesis by (intro exI[of _ "''X''"]) (simp add: mixed_edges_def)
  qed
qed

lemma mixed_pre_cycle_set: "pre_cycle_set mixed_nodes mixed_edges = {''P''}"
  unfolding pre_cycle_set_def mixed_on_cycle mixed_fed mixed_keys
  by (simp add: set_eq_iff) blast

lemma mixed_post_cycle_set: "post_cycle_set mixed_nodes mixed_edges = {''Q''}"
  unfolding post_cycle_set_def mixed_on_cycle mixed_fed mixed_keys
  by (simp add: set_eq_iff) blast

theorem solve_cyclic_phases_witness:
  "solve remdups DAGSolver mixed_nodes mixed_edges [(''x_val'', 0), (''y_val'', 0)]
   = (([(''x_val'', 2.3528384375), (''y_val'', 2.70585153125), (''p_out'', 1),
        (''q_out'', 3.3528384375)],
       [''P'', ''X'', ''Y'', ''X'', ''Y'', ''X'', ''Y'', ''X'', ''Y'', ''X'', ''Y'', ''X'', ''Y'', ''Q'']),
      None) \<and>
   (\<exists>pre_exec cyc_exec post_exec.
      [''P'', ''X'', ''Y'', ''X'', ''Y'', ''X'', ''Y'', ''X'', ''Y'', ''X'', ''Y'', ''X'', ''Y'', ''Q'']
        = pre_exec @ cyc_exec @ post_exec \<and>
      distinct pre_exec \<and> set pre_exec = {''P''} \<and>
      distinct post_exec \<and> set post_exec = {''Q''} \<and>
      set cyc_exec \<subseteq> {''X'', ''Y''})"
proof (rule conjI[OF mixed_solve])
  have c: "simple_cycle_nodes (build_graph (map fst mixed_nodes) mixed_edges) \<noteq> []"
    by (simp add: mixed_cycles)
  have k: "{n \<in> fst ` set mixed_nodes. (n, n) \<in> (set mixed_edges)\<^sup>+} \<subseteq> {''X'', ''Y''}"
  proof
    fix n assume "n \<in> {n \<in> fst ` set mixed_nodes. (n, n) \<in> (set mixed_edges)\<^sup>+}"
    then have "(n, n) \<in> (set mixed_edges)\<^sup>+" by (simp only: mem_Collect_eq)
    then show "n \<in> {''X'', ''Y''}" by (simp only: mixed_on_cycle)
  qed
  note t = solve_cyclic_phases[of remdups mixed_nodes mixed_edges DAGSolver
      "[(''x_val'', 0), (''y_val'', 0)]"
      "[(''x_val'', 2.3528384375), (''y_val'', 2.70585153125), (''p_out'', 1),
        (''q_out'', 3.3528384375)]"
      "[''P'', ''X'', ''Y'', ''X'', ''Y'', ''X'', ''Y'', ''X'', ''Y'', ''X'', ''Y'', ''X'', ''Y'', ''Q'']",
      THEN mp, OF conjI[OF is_set_order_remdups conjI[OF c mixed_solve]]]
  from t show "\<exists>pre_exec cyc_exec post_exec.
      [''P'', ''X'', ''Y'', ''X'', ''Y'', ''X'', ''Y'', ''X'', ''Y'', ''X'', ''Y'', ''X'', ''Y'', ''Q'']
        = pre_exec @ cyc_exec @ post_exec \<and>
      distinct pre_exec \<and> set pre_exec = {''P''} \<and>
      distinct post_exec \<and> set post_exec = {''Q''} \<and>
      set cyc_exec \<subseteq> {''X'', ''Y''}"
    unfolding mixed_pre_cycle_set mixed_post_cycle_set
    apply (elim exE conjE)
    subgoal for pre_exec cyc_exec post_exec st1 st2 m
      apply (rule exI[of _ pre_exec], rule exI[of _ cyc_exec], rule exI[of _ post_exec])
      apply (intro conjI)
           apply assumption
          apply assumption
         apply assumption
        apply assumption
       apply assumption
      apply (erule subset_trans, rule k)
      done
    done
qed

section \<open>The cyclic block\<close>

lemma resolve_cycle_order_sorted:
  "sorted (map (sub_in_degree g ids) (resolve_cycle_order g ids))
   \<and> set (resolve_cycle_order g ids) = set ids
   \<and> (distinct ids \<longrightarrow> distinct (resolve_cycle_order g ids))
   \<and> (\<forall>k. filter (\<lambda>n. sub_in_degree g ids n = k) (resolve_cycle_order g ids)
           = filter (\<lambda>n. sub_in_degree g ids n = k) ids)"
  by (simp add: resolve_cycle_order_def sort_key_stable)

lemma iterate_zero_budget:
  "max_iterations slv \<le> 0 \<Longrightarrow>
   iterate_until_converged slv nodes order st = ((st, []), Some (UnboundLocalError ''snapshot''))"
  by (simp add: iterate_until_converged_def)

lemma iterate_loop_passes:
  assumes "iterate_loop slv nodes order k snap sl = ((st', lg), None)"
    and "k = 0 \<longrightarrow> snap \<noteq> None"
  shows "\<exists>m \<le> k.
     lg = snd sl @ concat (replicate m (filter (\<lambda>n. n \<in> fst ` set nodes) order)) \<and>
     st' = ((pass_store nodes order) ^^ m) (fst sl) \<and>
     (0 < k \<longrightarrow> 1 \<le> m) \<and>
     (\<forall>i. 1 \<le> i \<and> i < m \<longrightarrow>
        \<not> float_less (delta (((pass_store nodes order) ^^ i) (fst sl))
                             (((pass_store nodes order) ^^ (i - 1)) (fst sl)))
                      (convergence_threshold slv)) \<and>
     (1 \<le> m \<and> m < k \<longrightarrow>
        float_less (delta (((pass_store nodes order) ^^ m) (fst sl))
                          (((pass_store nodes order) ^^ (m - 1)) (fst sl)))
                   (convergence_threshold slv))"
  using assms
proof (induction k arbitrary: snap sl)
  case 0
  then show ?case by (cases snap) auto
next
  case (Suc k)
  let ?known = "filter (\<lambda>n. n \<in> fst ` set nodes) order"
  let ?P = "pass_store nodes order"
  let ?thr = "convergence_threshold slv"
  obtain sl1 exc where r: "run_nodes nodes order sl = (sl1, exc)" by (cases "run_nodes nodes order sl")
  have exc: "exc = None"
  proof (cases exc)
    case (Some e)
    then show ?thesis using Suc.prems(1) r by (simp add: Let_def)
  qed simp
  have "run_nodes nodes order sl = ((fst sl1, snd sl1), None)" using r exc by simp
  then have l1: "snd sl1 = snd sl @ ?known" by (rule run_nodes_log)
  have "fst (fst (run_nodes nodes order (fst sl, snd sl))) = ?P (fst sl)"
    unfolding pass_store_def using run_nodes_store_log[of nodes order "fst sl" "snd sl"] by blast
  then have s1: "fst sl1 = ?P (fst sl)" using r by simp
  show ?case
  proof (cases "float_less (delta (fst sl1) (snapshot (fst sl))) ?thr")
    case True
    then have "((st', lg), None) = (sl1, None)" using Suc.prems(1) r exc by (simp add: Let_def)
    then have a: "lg = snd sl @ concat (replicate 1 ?known)" and b: "st' = (?P ^^ 1) (fst sl)"
      using l1 s1 by auto
    have c: "float_less (delta ((?P ^^ 1) (fst sl)) ((?P ^^ (1 - 1)) (fst sl))) ?thr"
      using True s1 by (simp add: snapshot_def)
    show ?thesis
      apply (rule exI[of _ 1])
      using a b c by simp
  next
    case False
    then have it: "iterate_loop slv nodes order k (Some (snapshot (fst sl))) sl1 = ((st', lg), None)"
      using Suc.prems(1) r exc by (simp add: Let_def)
    have f1: "\<not> float_less (delta ((?P ^^ 1) (fst sl)) ((?P ^^ 0) (fst sl))) ?thr"
      using False s1 by (simp add: snapshot_def)
    from Suc.IH[OF it] obtain m where mk: "m \<le> k"
      and lg: "lg = snd sl1 @ concat (replicate m ?known)"
      and st: "st' = (?P ^^ m) (fst sl1)"
      and nc: "\<And>i. 1 \<le> i \<and> i < m \<Longrightarrow>
                \<not> float_less (delta ((?P ^^ i) (fst sl1)) ((?P ^^ (i - 1)) (fst sl1))) ?thr"
      and cv: "1 \<le> m \<and> m < k \<Longrightarrow>
                float_less (delta ((?P ^^ m) (fst sl1)) ((?P ^^ (m - 1)) (fst sl1))) ?thr"
      and pos: "0 < k \<Longrightarrow> 1 \<le> m"
      by auto
    have shift: "(?P ^^ i) (fst sl1) = (?P ^^ Suc i) (fst sl)" for i
      unfolding s1 by (simp add: funpow_swap1)
    have a: "lg = snd sl @ concat (replicate (Suc m) ?known)" using lg l1 by simp
    have b: "st' = (?P ^^ Suc m) (fst sl)" using st shift by simp
    have c: "\<not> float_less (delta ((?P ^^ i) (fst sl)) ((?P ^^ (i - 1)) (fst sl))) ?thr"
      if "1 \<le> i \<and> i < Suc m" for i
    proof (cases "i = 1")
      case True
      then show ?thesis using f1 by simp
    next
      case False
      define j where "j = i - 1"
      have j: "i = Suc j" "1 \<le> j" "j < m" using that False unfolding j_def by linarith+
      have "(?P ^^ (j - 1)) (fst sl1) = (?P ^^ j) (fst sl)"
        using shift[of "j - 1"] j(2) by simp
      then show ?thesis using nc[of j] j shift[of j] by simp
    qed
    have d: "float_less (delta ((?P ^^ Suc m) (fst sl)) ((?P ^^ (Suc m - 1)) (fst sl))) ?thr"
      if "Suc m < Suc k"
    proof -
      have mk': "m < k" using that by simp
      then have m1: "1 \<le> m" using pos by simp
      have "(?P ^^ (m - 1)) (fst sl1) = (?P ^^ m) (fst sl)"
        using shift[of "m - 1"] m1 by simp
      then show ?thesis using cv m1 mk' shift[of m] by simp
    qed
    show ?thesis
      apply (rule exI[of _ "Suc m"])
      using mk a b c d by simp
  qed
qed

lemma cyclic_block_positive_budget:
  assumes "1 \<le> max_iterations slv"
    and "iterate_until_converged slv nodes order st = ((st', lg), None)"
  shows "\<exists>m. 1 \<le> m \<and> m \<le> nat (max_iterations slv) \<and>
     lg = concat (replicate m (filter (\<lambda>n. n \<in> fst ` set nodes) order)) \<and>
     st' = ((pass_store nodes order) ^^ m) st \<and>
     (\<forall>i. 1 \<le> i \<and> i < m \<longrightarrow>
        \<not> float_less (delta (((pass_store nodes order) ^^ i) st)
                             (((pass_store nodes order) ^^ (i - 1)) st))
                      (convergence_threshold slv)) \<and>
     (m < nat (max_iterations slv) \<longrightarrow>
        float_less (delta (((pass_store nodes order) ^^ m) st)
                          (((pass_store nodes order) ^^ (m - 1)) st))
                   (convergence_threshold slv))"
proof -
  have k: "0 < nat (max_iterations slv)" using assms(1) by simp
  from iterate_loop_passes[OF assms(2)[unfolded iterate_until_converged_def]] k
  obtain m where "m \<le> nat (max_iterations slv)"
     "lg = snd (st, []) @ concat (replicate m (filter (\<lambda>n. n \<in> fst ` set nodes) order))"
     "st' = ((pass_store nodes order) ^^ m) (fst (st, []))"
     "1 \<le> m"
     "\<forall>i. 1 \<le> i \<and> i < m \<longrightarrow>
        \<not> float_less (delta (((pass_store nodes order) ^^ i) (fst (st, [])))
                             (((pass_store nodes order) ^^ (i - 1)) (fst (st, []))))
                      (convergence_threshold slv)"
     "1 \<le> m \<and> m < nat (max_iterations slv) \<longrightarrow>
        float_less (delta (((pass_store nodes order) ^^ m) (fst (st, [])))
                          (((pass_store nodes order) ^^ (m - 1)) (fst (st, []))))
                   (convergence_threshold slv)"
    by auto
  then show ?thesis
    by (intro exI[of _ m]) simp
qed

lemma iterate_loop_no_soft_error:
  assumes "\<And>sl. snd (run_nodes nodes order sl) = None"
    and "0 < k \<or> snap \<noteq> None"
  shows "snd (iterate_loop slv nodes order k snap sl) = None"
  using assms(2)
proof (induction k arbitrary: snap sl)
  case 0
  then show ?case by (cases snap) auto
next
  case (Suc k)
  obtain sl1 where r: "run_nodes nodes order sl = (sl1, None)"
    using assms(1)[of sl] by (cases "run_nodes nodes order sl") auto
  show ?case
    using r Suc.IH[of "Some (snapshot (fst sl))" sl1] by (simp add: Let_def)
qed

text \<open>
  Claim C3. The cyclic block sorts the cycle nodes by their in-degree inside the cycle
  sub-graph (lemma \<open>resolve_cycle_order_sorted\<close>) and, for an iteration budget of at
  least one, runs passes over them until the first pass whose delta is below the
  threshold or until the budget is used up, and returns (lemmas
  \<open>cyclic_block_positive_budget\<close>, \<open>iterate_loop_no_soft_error\<close>). With a budget of 0
  the loop body never runs and the \<^verbatim>\<open>else\<close> branch of the loop reads the variable
  \<^verbatim>\<open>snapshot\<close> that no pass has assigned: the call raises UnboundLocalError.
\<close>

theorem cyclic_block_zero_budget_raises:
  "solve remdups \<lparr>convergence_threshold = 0.001, max_iterations = 0\<rparr> xy_nodes xy_edges
     [(''x_val'', 0), (''y_val'', 0)]
   = (([(''x_val'', 0), (''y_val'', 0)], []), Some (UnboundLocalError ''snapshot''))"
proof -
  have r: "remdups [''X'', ''Y''] = [''X'', ''Y'']" by simp
  show ?thesis
    unfolding xy_solve[OF is_set_order_remdups r] cycle_phase_def
    by (simp add: iterate_zero_budget)
qed

end
